theory Spec2Isabelle
  imports Complex_Main "HOL-Library.Word" "HOL-Library.AList"
begin

unbundle bit_operations_syntax

section \<open>Bytes, strings and the encodings of the standard library\<close>

text \<open>
  A Go \<^verbatim>\<open>string\<close> and a Go \<^verbatim>\<open>[]byte\<close> are both sequences of bytes; both are
  modelled as \<^typ>\<open>string\<close> (a list of 8-bit characters). \<^term>\<open>of_char\<close> reads the
  numeric value of a byte and \<^term>\<open>char_of\<close> builds the byte of a number.
\<close>

type_synonym bytes = string

text \<open>Instants (\<^verbatim>\<open>time.Time\<close>) and durations are integers on one time line.\<close>

type_synonym instant = int

text \<open>
  \<^verbatim>\<open>crypto/rand.Read(b)\<close> fills the whole buffer or fails. The entropy source is a
  tape of bytes passed through the calls: a read of \<open>n\<close> bytes takes them from the front
  of the tape and fails when the tape cannot supply them.
\<close>

definition rand_Read :: "nat \<Rightarrow> bytes \<Rightarrow> (bytes \<times> bytes) option" where
  "rand_Read n tape = (if length tape < n then None else Some (take n tape, drop n tape))"

definition hex_digits :: string where
  "hex_digits = ''0123456789abcdef''"

text \<open>\<^verbatim>\<open>fmt.Sprintf("%x", b)\<close>: two lowercase hexadecimal digits per byte.\<close>

definition hex_byte :: "char \<Rightarrow> string" where
  "hex_byte c = [hex_digits ! ((of_char c :: nat) div 16), hex_digits ! ((of_char c :: nat) mod 16)]"

definition hex_string :: "bytes \<Rightarrow> string" where
  "hex_string b = concat (map hex_byte b)"

text \<open>The bits of a byte and of a byte sequence, most significant bit first.\<close>

definition bits_of_char :: "char \<Rightarrow> bool list" where
  "bits_of_char c = map (\<lambda>i. bit (of_char c :: nat) (7 - i)) [0..<8]"

definition bits_of :: "bytes \<Rightarrow> bool list" where
  "bits_of b = concat (map bits_of_char b)"

fun nat_of_bits :: "bool list \<Rightarrow> nat" where
  "nat_of_bits [] = 0"
| "nat_of_bits (b # bs) = (if b then 2 ^ length bs else 0) + nat_of_bits bs"

text \<open>Cutting a sequence into groups of \<open>n\<close>; the last group may be shorter.\<close>

function chunks :: "nat \<Rightarrow> 'a list \<Rightarrow> 'a list list" where
  "chunks n xs = (if n = 0 \<or> xs = [] then [] else take n xs # chunks n (drop n xs))"
  by pat_completeness auto
termination
  by (relation "measure (\<lambda>(n, xs). length xs)") auto

definition pad_bits :: "nat \<Rightarrow> bool list \<Rightarrow> bool list" where
  "pad_bits n bs = bs @ replicate (n - length bs) False"

definition base32_alphabet :: string where
  "base32_alphabet = ''ABCDEFGHIJKLMNOPQRSTUVWXYZ234567''"

text \<open>
  \<^verbatim>\<open>base32.StdEncoding.WithPadding(base32.NoPadding).EncodeToString\<close> (RFC 4648): the
  bits of the input in groups of five, the last group filled with zero bits, each group
  the index of a character of the alphabet.
\<close>

definition base32_encode :: "bytes \<Rightarrow> string" where
  "base32_encode b = map (\<lambda>g. base32_alphabet ! nat_of_bits (pad_bits 5 g)) (chunks 5 (bits_of b))"

text \<open>
  \<^verbatim>\<open>strings.ToUpper\<close> on a string whose bytes are all below 128, where the library
  maps the letters a to z and keeps every other byte. The code generator calls it on
  base32 text, which is ASCII. For arbitrary bytes the function is \<open>strings_ToUpper\<close>
  below, which takes this path when it applies.
\<close>

definition to_upper_char :: "char \<Rightarrow> char" where
  "to_upper_char c = (if 97 \<le> (of_char c :: nat) \<and> (of_char c :: nat) \<le> 122
                      then char_of ((of_char c :: nat) - 32) else c)"

definition ToUpper :: "string \<Rightarrow> string" where
  "ToUpper s = map to_upper_char s"

section \<open>HMAC-SHA256 (crypto/hmac, crypto/sha256)\<close>

text \<open>
  The signer calls \<^verbatim>\<open>hmac.New(sha256.New, secret)\<close>. SHA-256 follows FIPS 180-4 and
  HMAC follows RFC 2104, on 32-bit words that wrap around.
\<close>

type_synonym w32 = "32 word"

definition K256 :: "w32 list" where
  "K256 =
     [0x428a2f98, 0x71374491, 0xb5c0fbcf, 0xe9b5dba5]
     @ [0x3956c25b, 0x59f111f1, 0x923f82a4, 0xab1c5ed5]
     @ [0xd807aa98, 0x12835b01, 0x243185be, 0x550c7dc3]
     @ [0x72be5d74, 0x80deb1fe, 0x9bdc06a7, 0xc19bf174]
     @ [0xe49b69c1, 0xefbe4786, 0x0fc19dc6, 0x240ca1cc]
     @ [0x2de92c6f, 0x4a7484aa, 0x5cb0a9dc, 0x76f988da]
     @ [0x983e5152, 0xa831c66d, 0xb00327c8, 0xbf597fc7]
     @ [0xc6e00bf3, 0xd5a79147, 0x06ca6351, 0x14292967]
     @ [0x27b70a85, 0x2e1b2138, 0x4d2c6dfc, 0x53380d13]
     @ [0x650a7354, 0x766a0abb, 0x81c2c92e, 0x92722c85]
     @ [0xa2bfe8a1, 0xa81a664b, 0xc24b8b70, 0xc76c51a3]
     @ [0xd192e819, 0xd6990624, 0xf40e3585, 0x106aa070]
     @ [0x19a4c116, 0x1e376c08, 0x2748774c, 0x34b0bcb5]
     @ [0x391c0cb3, 0x4ed8aa4a, 0x5b9cca4f, 0x682e6ff3]
     @ [0x748f82ee, 0x78a5636f, 0x84c87814, 0x8cc70208]
     @ [0x90befffa, 0xa4506ceb, 0xbef9a3f7, 0xc67178f2]"

type_synonym sha256_state = "w32 \<times> w32 \<times> w32 \<times> w32 \<times> w32 \<times> w32 \<times> w32 \<times> w32"

definition H256 :: sha256_state where
  "H256 = (0x6a09e667, 0xbb67ae85, 0x3c6ef372, 0xa54ff53a,
           0x510e527f, 0x9b05688c, 0x1f83d9ab, 0x5be0cd19)"

definition Ch :: "w32 \<Rightarrow> w32 \<Rightarrow> w32 \<Rightarrow> w32" where
  "Ch x y z = (x AND y) XOR (NOT x AND z)"

definition Maj :: "w32 \<Rightarrow> w32 \<Rightarrow> w32 \<Rightarrow> w32" where
  "Maj x y z = (x AND y) XOR (x AND z) XOR (y AND z)"

definition bsig0 :: "w32 \<Rightarrow> w32" where
  "bsig0 x = word_rotr 2 x XOR word_rotr 13 x XOR word_rotr 22 x"

definition bsig1 :: "w32 \<Rightarrow> w32" where
  "bsig1 x = word_rotr 6 x XOR word_rotr 11 x XOR word_rotr 25 x"

definition ssig0 :: "w32 \<Rightarrow> w32" where
  "ssig0 x = word_rotr 7 x XOR word_rotr 18 x XOR drop_bit 3 x"

definition ssig1 :: "w32 \<Rightarrow> w32" where
  "ssig1 x = word_rotr 17 x XOR word_rotr 19 x XOR drop_bit 10 x"

text \<open>Big-endian bytes of a number, and the number of big-endian bytes.\<close>

definition be_bytes :: "nat \<Rightarrow> nat \<Rightarrow> bytes" where
  "be_bytes k n = map (\<lambda>i. char_of (n div 256 ^ (k - 1 - i))) [0..<k]"

fun be_nat :: "bytes \<Rightarrow> nat" where
  "be_nat [] = 0"
| "be_nat (c # cs) = of_char c * 256 ^ length cs + be_nat cs"

definition sha256_pad :: "bytes \<Rightarrow> bytes" where
  "sha256_pad m =
     m @ [CHR 0x80] @ replicate ((119 - length m mod 64) mod 64) (CHR 0x00)
       @ be_bytes 8 (8 * length m)"

fun schedule :: "nat \<Rightarrow> w32 list \<Rightarrow> w32 list" where
  "schedule 0 w = w"
| "schedule (Suc n) w =
     schedule n (w @ [ssig1 (w ! (length w - 2)) + w ! (length w - 7)
                      + ssig0 (w ! (length w - 15)) + w ! (length w - 16)])"

definition sha256_round :: "w32 \<times> w32 \<Rightarrow> sha256_state \<Rightarrow> sha256_state" where
  "sha256_round kw st =
     (case (kw, st) of ((k, w), (a, b, c, d, e, f, g, h)) \<Rightarrow>
        let t1 = h + bsig1 e + Ch e f g + k + w;
            t2 = bsig0 a + Maj a b c
        in (t1 + t2, a, b, c, d + t1, e, f, g))"

definition sha256_add :: "sha256_state \<Rightarrow> sha256_state \<Rightarrow> sha256_state" where
  "sha256_add x y =
     (case (x, y) of ((a, b, c, d, e, f, g, h), (a', b', c', d', e', f', g', h')) \<Rightarrow>
        (a + a', b + b', c + c', d + d', e + e', f + f', g + g', h + h'))"

definition sha256_block :: "bytes \<Rightarrow> sha256_state \<Rightarrow> sha256_state" where
  "sha256_block blk h =
     (let w = schedule 48 (map (\<lambda>g. of_nat (be_nat g)) (chunks 4 blk))
      in sha256_add h (fold sha256_round (zip K256 w) h))"

definition sha256_output :: "sha256_state \<Rightarrow> bytes" where
  "sha256_output st =
     (case st of (a, b, c, d, e, f, g, h) \<Rightarrow>
        concat (map (\<lambda>x. be_bytes 4 (unat x)) [a, b, c, d, e, f, g, h]))"

definition sha256 :: "bytes \<Rightarrow> bytes" where
  "sha256 m = sha256_output (fold sha256_block (chunks 64 (sha256_pad m)) H256)"

definition xor_pad :: "nat \<Rightarrow> bytes \<Rightarrow> bytes" where
  "xor_pad p k = map (\<lambda>c. char_of ((of_char c :: nat) XOR p)) k"

definition hmac_sha256 :: "bytes \<Rightarrow> bytes \<Rightarrow> bytes" where
  "hmac_sha256 key m =
     (let k0 = (if length key > 64 then sha256 key else key);
          k = k0 @ replicate (64 - length k0) (CHR 0x00)
      in sha256 (xor_pad 0x5c k @ sha256 (xor_pad 0x36 k @ m)))"

section \<open>Base64 (encoding/base64, RawURLEncoding)\<close>

definition base64url_alphabet :: string where
  "base64url_alphabet = ''ABCDEFGHIJKLMNOPQRSTUVWXYZabcdefghijklmnopqrstuvwxyz0123456789-_''"

definition b64_char :: "nat \<Rightarrow> char" where
  "b64_char v = base64url_alphabet ! v"

text \<open>
  \<^verbatim>\<open>RawURLEncoding.EncodeToString\<close>: three bytes give four characters; a remainder of
  one or two bytes gives two or three characters, and no padding character is written.
\<close>

fun EncodeToString :: "bytes \<Rightarrow> string" where
  "EncodeToString (a # b # c # rest) =
     (let v = (of_char a :: nat) * 65536 + of_char b * 256 + of_char c
      in [b64_char (v div 262144), b64_char (v div 4096 mod 64),
          b64_char (v div 64 mod 64), b64_char (v mod 64)] @ EncodeToString rest)"
| "EncodeToString [a, b] =
     (let v = (of_char a :: nat) * 65536 + of_char b * 256
      in [b64_char (v div 262144), b64_char (v div 4096 mod 64), b64_char (v div 64 mod 64)])"
| "EncodeToString [a] =
     (let v = (of_char a :: nat) * 65536
      in [b64_char (v div 262144), b64_char (v div 4096 mod 64)])"
| "EncodeToString [] = []"






section \<open>UTF-8 (unicode/utf8)\<close>

definition RuneError :: nat where
  "RuneError = 0xFFFD"

definition in_range :: "char \<Rightarrow> nat \<Rightarrow> nat \<Rightarrow> bool" where
  "in_range c lo hi = (lo \<le> of_char c \<and> (of_char c :: nat) \<le> hi)"

text \<open>
  \<^verbatim>\<open>utf8.DecodeRuneInString\<close>: the first rune of the bytes and its width; an encoding
  that is not valid (a stray or missing continuation byte, an overlong form, a surrogate,
  a value above U+10FFFF) gives \<^term>\<open>RuneError\<close> with width 1.
\<close>

fun DecodeRune :: "bytes \<Rightarrow> nat \<times> nat" where
  "DecodeRune [] = (RuneError, 0)"
| "DecodeRune (c0 # cs) =
     (let b0 = (of_char c0 :: nat) in
      if b0 < 0x80 then (b0, 1)
      else if 0xC2 \<le> b0 \<and> b0 \<le> 0xDF then
        (case cs of
           c1 # _ \<Rightarrow>
             if in_range c1 0x80 0xBF
             then ((b0 mod 32) * 64 + (of_char c1 :: nat) mod 64, 2)
             else (RuneError, 1)
         | _ \<Rightarrow> (RuneError, 1))
      else if 0xE0 \<le> b0 \<and> b0 \<le> 0xEF then
        (case cs of
           c1 # c2 # _ \<Rightarrow>
             if in_range c1 (if b0 = 0xE0 then 0xA0 else 0x80) (if b0 = 0xED then 0x9F else 0xBF)
                \<and> in_range c2 0x80 0xBF
             then ((b0 mod 16) * 4096 + ((of_char c1 :: nat) mod 64) * 64 + (of_char c2 :: nat) mod 64, 3)
             else (RuneError, 1)
         | _ \<Rightarrow> (RuneError, 1))
      else if 0xF0 \<le> b0 \<and> b0 \<le> 0xF4 then
        (case cs of
           c1 # c2 # c3 # _ \<Rightarrow>
             if in_range c1 (if b0 = 0xF0 then 0x90 else 0x80) (if b0 = 0xF4 then 0x8F else 0xBF)
                \<and> in_range c2 0x80 0xBF \<and> in_range c3 0x80 0xBF
             then ((b0 mod 8) * 262144 + ((of_char c1 :: nat) mod 64) * 4096
                   + ((of_char c2 :: nat) mod 64) * 64 + (of_char c3 :: nat) mod 64, 4)
             else (RuneError, 1)
         | _ \<Rightarrow> (RuneError, 1))
      else (RuneError, 1))"

text \<open>\<^verbatim>\<open>utf8.EncodeRune\<close>: surrogates and values above U+10FFFF are written as
  \<^term>\<open>RuneError\<close>.\<close>

definition EncodeRune :: "nat \<Rightarrow> bytes" where
  "EncodeRune r =
     (if r < 0x80 then [char_of r]
      else if r < 0x800 then [char_of (0xC0 + r div 64), char_of (0x80 + r mod 64)]
      else if (0xD800 \<le> r \<and> r \<le> 0xDFFF) \<or> r > 0x10FFFF then [CHR 0xEF, CHR 0xBF, CHR 0xBD]
      else if r < 0x10000
        then [char_of (0xE0 + r div 4096), char_of (0x80 + r div 64 mod 64), char_of (0x80 + r mod 64)]
      else [char_of (0xF0 + r div 262144), char_of (0x80 + r div 4096 mod 64),
            char_of (0x80 + r div 64 mod 64), char_of (0x80 + r mod 64)])"


section \<open>Upper case (strings, unicode)\<close>

text \<open>
  \<^verbatim>\<open>unicode.ToUpper(r)\<close>: the letters a to z are mapped by arithmetic up to U+007F; from
  U+0080 on the rune is looked up in the table \<^verbatim>\<open>unicode.CaseRanges\<close> of the standard
  library. The table depends on the Unicode version of the toolchain; it is the argument
  \<open>upper\<close>, the map \<^verbatim>\<open>unicode.To(unicode.UpperCase, _)\<close>, and what is proved is proved for
  every table.
\<close>

definition unicode_ToUpper :: "(nat \<Rightarrow> nat) \<Rightarrow> nat \<Rightarrow> nat" where
  "unicode_ToUpper upper r =
     (if r \<le> 0x7F then (if 97 \<le> r \<and> r \<le> 122 then r - 32 else r) else upper r)"

text \<open>
  \<^verbatim>\<open>strings.Map(mapping, s)\<close> for a mapping that drops no rune: the runes of \<open>s\<close> are
  decoded in turn, a byte that starts no valid encoding counting as \<^term>\<open>RuneError\<close>
  of width 1, and the image of each rune is written in UTF-8. (The library returns \<open>s\<close>
  itself when no rune changes, which is the same string.)
\<close>

fun strings_Map :: "(nat \<Rightarrow> nat) \<Rightarrow> string \<Rightarrow> string" where
  "strings_Map mapping [] = []"
| "strings_Map mapping (c # cs) =
     (case DecodeRune (c # cs) of
        (r, width) \<Rightarrow> EncodeRune (mapping r) @ strings_Map mapping (drop (width - 1) cs))"

text \<open>
  \<^verbatim>\<open>strings.ToUpper(s)\<close>: a string of ASCII bytes is mapped byte by byte; any other
  string goes rune by rune through \<^verbatim>\<open>Map(unicode.ToUpper, s)\<close>.
\<close>

definition strings_ToUpper :: "(nat \<Rightarrow> nat) \<Rightarrow> string \<Rightarrow> string" where
  "strings_ToUpper upper s =
     (if list_all (\<lambda>c. (of_char c :: nat) < 0x80) s then ToUpper s
      else strings_Map (unicode_ToUpper upper) s)"

section \<open>JSON of the token claims (encoding/json)\<close>

definition dquote :: char where
  "dquote = CHR 0x22"

definition backslash :: char where
  "backslash = CHR 0x5C"

text \<open>
  \<^verbatim>\<open>appendString\<close> with HTML escaping, as \<^verbatim>\<open>json.Marshal\<close> calls it, for one byte
  below 128: the quote and the backslash get a backslash, five control characters their
  short escape, every other control character and \<^verbatim>\<open><\<close>, \<^verbatim>\<open>>\<close>, \<^verbatim>\<open>&\<close> the
  escape \<^verbatim>\<open>\u00XX\<close>, and every other byte is copied.
\<close>

definition escape_ascii :: "char \<Rightarrow> string" where
  "escape_ascii c =
     (if c = backslash \<or> c = dquote then [backslash, c]
      else if c = CHR 0x08 then [backslash, CHR ''b'']
      else if c = CHR 0x0C then [backslash, CHR ''f'']
      else if c = CHR 0x0A then [backslash, CHR ''n'']
      else if c = CHR 0x0D then [backslash, CHR ''r'']
      else if c = CHR 0x09 then [backslash, CHR ''t'']
      else if (of_char c :: nat) < 0x20 \<or> c = CHR ''<'' \<or> c = CHR ''>'' \<or> c = CHR ''&''
        then [backslash, CHR ''u'', CHR ''0'', CHR ''0''] @ hex_byte c
      else [c])"

text \<open>
  The loop of \<^verbatim>\<open>appendString\<close> over the bytes of a string: a byte that does not start
  a valid UTF-8 encoding is written as the escape of U+FFFD, U+2028 and U+2029 are
  escaped, every other rune is copied.
\<close>

fun appendString_body :: "bytes \<Rightarrow> string" where
  "appendString_body [] = []"
| "appendString_body (c # cs) =
     (if (of_char c :: nat) < 0x80 then escape_ascii c @ appendString_body cs
      else (case DecodeRune (c # cs) of
              (r, width) \<Rightarrow>
                if r = RuneError \<and> width = 1
                  then [backslash, CHR ''u'', CHR ''f'', CHR ''f'', CHR ''f'', CHR ''d'']
                       @ appendString_body cs
                else if r = 0x2028 \<or> r = 0x2029
                  then [backslash, CHR ''u'', CHR ''2'', CHR ''0'', CHR ''2'', hex_digits ! (r mod 16)]
                       @ appendString_body (drop (width - 1) cs)
                else (c # take (width - 1) cs) @ appendString_body (drop (width - 1) cs)))"

definition appendString :: "bytes \<Rightarrow> string" where
  "appendString s = [dquote] @ appendString_body s @ [dquote]"

text \<open>\<^verbatim>\<open>strconv.AppendInt(_, n, 10)\<close>\<close>

function digits10 :: "nat \<Rightarrow> string" where
  "digits10 n = (if n < 10 then [char_of (48 + n)] else digits10 (n div 10) @ [char_of (48 + n mod 10)])"
  by pat_completeness auto
termination
  by (relation "measure id") auto

definition FormatInt :: "int \<Rightarrow> string" where
  "FormatInt n = (if n < 0 then ''-'' @ digits10 (nat (- n)) else digits10 (nat n))"

section \<open>The token signer (server/internal/auth)\<close>

text \<open>The expiry of the claims (the field \<^verbatim>\<open>ExpiresAt\<close> of \<^verbatim>\<open>TokenClaims\<close>, named apart
  from the expiry of a session) is an \<^verbatim>\<open>int64\<close> of Unix seconds: a 64-bit word read as
  two's complement.\<close>

record TokenClaims =
  SessionID :: string
  Role :: string
  ExpiresAtUnix :: "64 word"

record Signer =
  secret :: bytes

definition NewSigner :: "string \<Rightarrow> Signer" where
  "NewSigner sec = \<lparr>secret = sec\<rparr>"

text \<open>
  \<^verbatim>\<open>json.Marshal(claims)\<close>: the fields in the order of the struct under their tags
  \<^verbatim>\<open>sid\<close>, \<^verbatim>\<open>role\<close>, \<^verbatim>\<open>exp\<close>, without white space. It has no error for a struct of
  two strings and an integer.
\<close>

definition Marshal :: "TokenClaims \<Rightarrow> bytes" where
  "Marshal claims =
     ''{'' @ appendString ''sid'' @ '':'' @ appendString (SessionID claims)
     @ '','' @ appendString ''role'' @ '':'' @ appendString (Role claims)
     @ '','' @ appendString ''exp'' @ '':'' @ FormatInt (sint (ExpiresAtUnix claims)) @ ''}''"

datatype token_error =
    MarshalFailed
  | InvalidTokenFormat
  | InvalidTokenPayload
  | InvalidTokenSignature
  | InvalidSignature
  | InvalidClaims
  | TokenExpired

definition Sign :: "Signer \<Rightarrow> TokenClaims \<Rightarrow> token_error + string" where
  "Sign s claims =
     (let payload = Marshal claims;
          signature = hmac_sha256 (secret s) payload
      in Inr (EncodeToString payload @ ''.'' @ EncodeToString signature))"

text \<open>\<^verbatim>\<open>t.Unix()\<close>: an instant is a number of nanoseconds since the Unix epoch.\<close>

definition Unix :: "instant \<Rightarrow> int" where
  "Unix t = t div 1000000000"






definition prepend :: "bytes \<Rightarrow> (bytes \<times> string) option \<Rightarrow> (bytes \<times> string) option" where
  "prepend x r = map_option (\<lambda>(s, rest). (x @ s, rest)) r"















definition CreateRelayToken :: "Signer \<Rightarrow> instant \<Rightarrow> string \<Rightarrow> string \<Rightarrow> int \<Rightarrow> token_error + string" where
  "CreateRelayToken s now sessionID role ttl' =
     Sign s \<lparr>SessionID = sessionID, Role = role, ExpiresAtUnix = word_of_int (Unix (now + ttl'))\<rparr>"

section \<open>The session store (server/internal/session/store.go)\<close>

record Session =
  ID :: string
  Code :: string
  HostToken :: string
  JoinToken :: string
  HostConnected :: bool
  JoinConnected :: bool
  CreatedAt :: instant
  ExpiresAt :: instant

text \<open>
  The two Go maps of the store are association lists read with \<^term>\<open>map_of\<close> and
  written with \<^term>\<open>AList.update\<close> and \<^term>\<open>AList.delete\<close>, so that the janitor can
  range over the entries. A map holds pointers to sessions; writing a field of a session
  is writing the entry of the map.
\<close>

record Store =
  sessions :: "(string \<times> Session) list"
  byCodes :: "(string \<times> string) list"
  ttl :: int

datatype store_error =
    GenerateSessionIDFailed
  | GenerateJoinCodeFailed
  | GenerateHostTokenFailed
  | SessionNotFound
  | SessionExpired
  | SessionAlreadyHasJoiner
  | GenerateJoinTokenFailed

definition NewStore :: "int \<Rightarrow> Store" where
  "NewStore t = \<lparr>sessions = [], byCodes = [], ttl = t\<rparr>"

text \<open>\<^verbatim>\<open>t.After(u)\<close>\<close>

definition After :: "instant \<Rightarrow> instant \<Rightarrow> bool" where
  "After t u = (t > u)"

definition generateID :: "nat \<Rightarrow> bytes \<Rightarrow> (string \<times> bytes) option" where
  "generateID len tape =
     (case rand_Read len tape of
        None \<Rightarrow> None
      | Some (b, tape') \<Rightarrow> Some (hex_string b, tape'))"

definition generateCode :: "bytes \<Rightarrow> (string \<times> bytes) option" where
  "generateCode tape =
     (case rand_Read 8 tape of
        None \<Rightarrow> None
      | Some (b, tape') \<Rightarrow>
          let encoded = ToUpper (take 12 (base32_encode b))
          in Some (take 4 encoded @ ''-'' @ take 4 (drop 4 encoded) @ ''-'' @ take 4 (drop 8 encoded),
                   tape'))"

definition Create :: "Store \<Rightarrow> instant \<Rightarrow> bytes \<Rightarrow> store_error + (Session \<times> Store \<times> bytes)" where
  "Create s now tape =
     (case generateID 16 tape of
        None \<Rightarrow> Inl GenerateSessionIDFailed
      | Some (sid, tape1) \<Rightarrow>
     (case generateCode tape1 of
        None \<Rightarrow> Inl GenerateJoinCodeFailed
      | Some (code, tape2) \<Rightarrow>
     (case generateID 32 tape2 of
        None \<Rightarrow> Inl GenerateHostTokenFailed
      | Some (hostToken, tape3) \<Rightarrow>
          let session = \<lparr>ID = sid, Code = code, HostToken = hostToken, JoinToken = '''',
                         HostConnected = False, JoinConnected = False,
                         CreatedAt = now, ExpiresAt = now + ttl s\<rparr>
          in Inr (session,
                  s\<lparr>sessions := AList.update sid session (sessions s),
                    byCodes := AList.update code sid (byCodes s)\<rparr>,
                  tape3))))"

definition GetByID :: "Store \<Rightarrow> instant \<Rightarrow> string \<Rightarrow> Session option" where
  "GetByID s now sid =
     (case map_of (sessions s) sid of
        None \<Rightarrow> None
      | Some session \<Rightarrow> if After now (ExpiresAt session) then None else Some session)"

definition GetByCode :: "Store \<Rightarrow> instant \<Rightarrow> string \<Rightarrow> Session option" where
  "GetByCode s now code =
     (case map_of (byCodes s) code of
        None \<Rightarrow> None
      | Some sid \<Rightarrow>
          (case map_of (sessions s) sid of
             None \<Rightarrow> None
           | Some session \<Rightarrow> if After now (ExpiresAt session) then None else Some session))"

definition Join :: "Store \<Rightarrow> instant \<Rightarrow> bytes \<Rightarrow> string \<Rightarrow> store_error + (Session \<times> Store \<times> bytes)" where
  "Join s now tape code =
     (case map_of (byCodes s) code of
        None \<Rightarrow> Inl SessionNotFound
      | Some sid \<Rightarrow>
     (case map_of (sessions s) sid of
        None \<Rightarrow> Inl SessionExpired
      | Some session \<Rightarrow>
          if After now (ExpiresAt session) then Inl SessionExpired
          else if JoinToken session \<noteq> '''' then Inl SessionAlreadyHasJoiner
          else (case generateID 32 tape of
                  None \<Rightarrow> Inl GenerateJoinTokenFailed
                | Some (joinToken, tape') \<Rightarrow>
                    let session' = session\<lparr>JoinToken := joinToken\<rparr>
                    in Inr (session', s\<lparr>sessions := AList.update sid session' (sessions s)\<rparr>, tape'))))"

definition SetHostConnected :: "Store \<Rightarrow> string \<Rightarrow> bool \<Rightarrow> store_error + Store" where
  "SetHostConnected s sid isConnected =
     (case map_of (sessions s) sid of
        None \<Rightarrow> Inl SessionNotFound
      | Some session \<Rightarrow>
          Inr (s\<lparr>sessions := AList.update sid (session\<lparr>HostConnected := isConnected\<rparr>) (sessions s)\<rparr>))"

definition SetJoinConnected :: "Store \<Rightarrow> string \<Rightarrow> bool \<Rightarrow> store_error + Store" where
  "SetJoinConnected s sid isConnected =
     (case map_of (sessions s) sid of
        None \<Rightarrow> Inl SessionNotFound
      | Some session \<Rightarrow>
          Inr (s\<lparr>sessions := AList.update sid (session\<lparr>JoinConnected := isConnected\<rparr>) (sessions s)\<rparr>))"

definition Delete :: "Store \<Rightarrow> string \<Rightarrow> Store" where
  "Delete s sid =
     (case map_of (sessions s) sid of
        None \<Rightarrow> s
      | Some session \<Rightarrow>
          s\<lparr>byCodes := AList.delete (Code session) (byCodes s),
            sessions := AList.delete sid (sessions s)\<rparr>)"

definition ValidateToken :: "Store \<Rightarrow> instant \<Rightarrow> string \<Rightarrow> string \<Rightarrow> string \<Rightarrow> bool" where
  "ValidateToken s now sessionID token role =
     (case map_of (sessions s) sessionID of
        None \<Rightarrow> False
      | Some session \<Rightarrow>
          if After now (ExpiresAt session) then False
          else if role = ''host'' then HostToken session = token
          else if role = ''joiner'' then JoinToken session = token
          else False)"

text \<open>One pass of the janitor: the loop body of \<^verbatim>\<open>cleanup\<close> for one entry of the range,
  and the range over the entries the map held when the loop began.\<close>

definition cleanup_entry :: "instant \<Rightarrow> string \<times> Session \<Rightarrow> Store \<Rightarrow> Store" where
  "cleanup_entry now e s =
     (if After now (ExpiresAt (snd e))
      then s\<lparr>byCodes := AList.delete (Code (snd e)) (byCodes s),
             sessions := AList.delete (fst e) (sessions s)\<rparr>
      else s)"

definition Store_cleanup :: "Store \<Rightarrow> instant \<Rightarrow> Store" where
  "Store_cleanup s now = fold (cleanup_entry now) (sessions s) s"

text \<open>
  A history of the store: the calls of the methods that write it, each with its
  arguments, the instant its clock reads and the entropy it is given. A call that fails
  leaves the store as it was. (\<^verbatim>\<open>GetByID\<close>, \<^verbatim>\<open>GetByCode\<close> and \<^verbatim>\<open>ValidateToken\<close> write
  nothing.)
\<close>

datatype store_call =
    CallCreate instant bytes
  | CallJoin instant bytes string
  | CallSetHostConnected string bool
  | CallSetJoinConnected string bool
  | CallDelete string
  | CallCleanup instant

fun store_step :: "store_call \<Rightarrow> Store \<Rightarrow> Store" where
  "store_step (CallCreate now tape) s =
     (case Create s now tape of Inl e \<Rightarrow> s | Inr (session, s', tape') \<Rightarrow> s')"
| "store_step (CallJoin now tape code) s =
     (case Join s now tape code of Inl e \<Rightarrow> s | Inr (session, s', tape') \<Rightarrow> s')"
| "store_step (CallSetHostConnected sid isConnected) s =
     (case SetHostConnected s sid isConnected of Inl e \<Rightarrow> s | Inr s' \<Rightarrow> s')"
| "store_step (CallSetJoinConnected sid isConnected) s =
     (case SetJoinConnected s sid isConnected of Inl e \<Rightarrow> s | Inr s' \<Rightarrow> s')"
| "store_step (CallDelete sid) s = Delete s sid"
| "store_step (CallCleanup now) s = Store_cleanup s now"

definition store_run :: "store_call list \<Rightarrow> Store \<Rightarrow> Store" where
  "store_run calls s = fold store_step calls s"

text \<open>
  A call spares the session \<open>sid\<close> and the code \<open>code\<close> when it neither creates, nor
  deletes, nor reaps a session with that id or with that code; a history spares them
  when each of its calls does, on the store it meets.
\<close>

fun spares :: "string \<Rightarrow> string \<Rightarrow> store_call \<Rightarrow> Store \<Rightarrow> bool" where
  "spares code sid (CallCreate now tape) s =
     (case Create s now tape of
        Inl e \<Rightarrow> True
      | Inr (session, s', tape') \<Rightarrow> ID session \<noteq> sid \<and> Code session \<noteq> code)"
| "spares code sid (CallDelete sid') s =
     (case map_of (sessions s) sid' of
        None \<Rightarrow> True
      | Some session \<Rightarrow> sid' \<noteq> sid \<and> Code session \<noteq> code)"
| "spares code sid (CallCleanup now) s =
     list_all (\<lambda>e. After now (ExpiresAt (snd e)) \<longrightarrow> fst e \<noteq> sid \<and> Code (snd e) \<noteq> code)
       (sessions s)"
| "spares code sid (CallJoin now tape code') s = True"
| "spares code sid (CallSetHostConnected sid' isConnected) s = True"
| "spares code sid (CallSetJoinConnected sid' isConnected) s = True"

fun spared :: "string \<Rightarrow> string \<Rightarrow> store_call list \<Rightarrow> Store \<Rightarrow> bool" where
  "spared code sid [] s = True"
| "spared code sid (c # cs) s = (spares code sid c s \<and> spared code sid cs (store_step c s))"

section \<open>The rendezvous HTTP handlers (server/cmd/signaling)\<close>

record Server =
  store :: Store
  signer :: Signer
  tokenTTL :: int

text \<open>
  What a handler writes: \<^verbatim>\<open>http.Error(w, message, status)\<close>, or the JSON object of a
  successful join with status 200 (session id, join token, relay token, host connected).
\<close>

datatype response =
    Error nat string
  | JoinOK string string string bool

fun status :: "response \<Rightarrow> nat" where
  "status (Error code msg) = code"
| "status (JoinOK sessionId joinToken relayToken hostConnected) = 200"

text \<open>The code as the join handler normalises it: dashes removed, upper case
  (\<^verbatim>\<open>strings.ToUpper\<close>, with the case table \<open>upper\<close> for the runes beyond ASCII), and a
  code of twelve bytes regrouped in three quartets.\<close>

definition normalize_code :: "(nat \<Rightarrow> nat) \<Rightarrow> string \<Rightarrow> string" where
  "normalize_code upper c =
     (let code = strings_ToUpper upper (filter (\<lambda>x. x \<noteq> CHR ''-'') c)
      in if length code = 12
         then take 4 code @ ''-'' @ take 4 (drop 4 code) @ ''-'' @ take 4 (drop 8 code)
         else code)"

text \<open>
  \<^verbatim>\<open>handleJoin\<close>. The request is its method, the answer of the rate limiter for the
  caller (\<^verbatim>\<open>AllowJoin\<close>) and the code of the decoded body (\<open>None\<close> when the body does
  not decode). The handler returns the response with the server and the entropy tape
  after the call. Its first argument is the case table of \<^term>\<open>unicode_ToUpper\<close>.
\<close>

definition handleJoin ::
  "(nat \<Rightarrow> nat) \<Rightarrow> Server \<Rightarrow> instant \<Rightarrow> bytes \<Rightarrow> string \<Rightarrow> bool \<Rightarrow> string option
     \<Rightarrow> response \<times> Server \<times> bytes" where
  "handleJoin upper srv now tape method allowed body =
     (if method \<noteq> ''POST'' then (Error 405 ''Method not allowed'', srv, tape)
      else if \<not> allowed then (Error 429 ''Rate limit exceeded'', srv, tape)
      else (case body of
              None \<Rightarrow> (Error 400 ''Invalid request'', srv, tape)
            | Some reqCode \<Rightarrow>
                (case Join (store srv) now tape (normalize_code upper reqCode) of
                   Inl err \<Rightarrow> (Error 404 ''Invalid or expired code'', srv, tape)
                 | Inr (sess, store', tape') \<Rightarrow>
                     (case CreateRelayToken (signer srv) now (ID sess) ''joiner'' (tokenTTL srv) of
                        Inl err \<Rightarrow> (Error 500 ''Failed to create token'', srv\<lparr>store := store'\<rparr>, tape')
                      | Inr relayToken \<Rightarrow>
                          (JoinOK (ID sess) (JoinToken sess) relayToken (HostConnected sess),
                           srv\<lparr>store := store'\<rparr>, tape')))))"

section \<open>The relay (server/internal/relay)\<close>

text \<open>A connection (\<^verbatim>\<open>net.Conn\<close>) is known by a number.\<close>

type_synonym conn = nat

record AuthMessage =
  authSessionID :: string
  authRelayToken :: string
  authRole :: string

record PendingConnection =
  Conn :: conn
  pendingRole :: string
  pendingSessionID :: string
  pendingCreatedAt :: instant

record Relay =
  pending :: "(string \<times> PendingConnection) list"
  pairTimeout :: int
  maxDuration :: int

text \<open>What the relay does to the sockets, in the order it does it.\<close>

datatype relay_event =
    SentAuthResponse conn bool string
  | Closed conn
  | Paired string conn conn

text \<open>How a call of \<^verbatim>\<open>HandleConnection\<close> goes on after the handshake: it has returned
  (the deferred close has run), it splices a pair (\<^verbatim>\<open>pairConnections\<close>: session, host,
  joiner), or it waits in the pending table (\<^verbatim>\<open>waitForPair\<close>).\<close>

datatype outcome =
    Returned
  | Splicing string conn conn
  | Waiting conn string string

definition NewRelay :: "int \<Rightarrow> int \<Rightarrow> Relay" where
  "NewRelay pt md = \<lparr>pending = [], pairTimeout = pt, maxDuration = md\<rparr>"

text \<open>
  The critical section of \<^verbatim>\<open>HandleConnection\<close> (from \<^verbatim>\<open>r.mu.Lock()\<close> to the
  \<^verbatim>\<open>Unlock\<close> of either branch) for an authenticated connection.
\<close>

definition pair_or_park ::
  "Relay \<Rightarrow> instant \<Rightarrow> conn \<Rightarrow> string \<Rightarrow> string \<Rightarrow> Relay \<times> relay_event list \<times> outcome" where
  "pair_or_park r now c sessionID role =
     (case map_of (pending r) sessionID of
        Some p \<Rightarrow>
          if pendingRole p \<noteq> role
          then (r\<lparr>pending := AList.delete sessionID (pending r)\<rparr>,
                (if role = ''host'' then [Paired sessionID c (Conn p)]
                 else [Paired sessionID (Conn p) c]),
                (if role = ''host'' then Splicing sessionID c (Conn p)
                 else Splicing sessionID (Conn p) c))
          else (r\<lparr>pending := AList.update sessionID
                      \<lparr>Conn = c, pendingRole = role, pendingSessionID = sessionID,
                       pendingCreatedAt = now\<rparr> (pending r)\<rparr>,
                [Closed (Conn p)],
                Waiting c sessionID role)
      | None \<Rightarrow>
          (r\<lparr>pending := AList.update sessionID
                 \<lparr>Conn = c, pendingRole = role, pendingSessionID = sessionID,
                  pendingCreatedAt = now\<rparr> (pending r)\<rparr>,
           [],
           Waiting c sessionID role))"

text \<open>
  \<^verbatim>\<open>HandleConnection\<close> up to the point where it splices or waits. The validator is the
  \<^verbatim>\<open>TokenValidator\<close> of the relay; \<open>msg\<close> is the decoded handshake (\<open>None\<close> when it
  does not decode) and \<open>sendOk\<close> tells whether the success response could be written.
\<close>

definition HandleConnection ::
  "Relay \<Rightarrow> (string \<Rightarrow> (string \<times> string) option) \<Rightarrow> instant \<Rightarrow> conn \<Rightarrow> AuthMessage option \<Rightarrow> bool
     \<Rightarrow> Relay \<times> relay_event list \<times> outcome" where
  "HandleConnection r validate now c msg sendOk =
     (case msg of
        None \<Rightarrow> (r, [SentAuthResponse c False ''Invalid auth message'', Closed c], Returned)
      | Some authMsg \<Rightarrow>
          (case validate (authRelayToken authMsg) of
             None \<Rightarrow> (r, [SentAuthResponse c False ''Invalid token'', Closed c], Returned)
           | Some (sessionID, role) \<Rightarrow>
               if sessionID \<noteq> authSessionID authMsg \<or> role \<noteq> authRole authMsg
               then (r, [SentAuthResponse c False ''Token mismatch'', Closed c], Returned)
               else if \<not> sendOk then (r, [SentAuthResponse c True [], Closed c], Returned)
               else (case pair_or_park r now c sessionID role of
                       (r', evs, out) \<Rightarrow> (r', SentAuthResponse c True [] # evs, out))))"

text \<open>One round of the loop of \<^verbatim>\<open>waitForPair\<close>: the call returns (and the deferred close
  of \<^verbatim>\<open>HandleConnection\<close> runs) when the entry is gone or is another connection's, or
  when the deadline has passed, in which case it removes its own entry; otherwise it
  sleeps and goes round again (\<open>None\<close>).\<close>

definition waitForPair_round ::
  "Relay \<Rightarrow> instant \<Rightarrow> instant \<Rightarrow> conn \<Rightarrow> string \<Rightarrow> (Relay \<times> relay_event list) option" where
  "waitForPair_round r now deadline c sessionID =
     (case map_of (pending r) sessionID of
        None \<Rightarrow> Some (r, [Closed c])
      | Some p \<Rightarrow>
          if Conn p \<noteq> c then Some (r, [Closed c])
          else if After now deadline
            then Some (r\<lparr>pending := AList.delete sessionID (pending r)\<rparr>, [Closed c])
          else None)"

text \<open>The janitor of the relay: the body of the loop of \<^verbatim>\<open>cleanup\<close> for one entry, and
  the range over the entries.\<close>

definition Relay_cleanup_entry ::
  "instant \<Rightarrow> string \<times> PendingConnection \<Rightarrow> Relay \<times> relay_event list \<Rightarrow> Relay \<times> relay_event list" where
  "Relay_cleanup_entry threshold e st =
     (if pendingCreatedAt (snd e) < threshold
      then ((fst st)\<lparr>pending := AList.delete (fst e) (pending (fst st))\<rparr>, snd st @ [Closed (Conn (snd e))])
      else st)"

definition Relay_cleanup :: "Relay \<Rightarrow> instant \<Rightarrow> Relay \<times> relay_event list" where
  "Relay_cleanup r now = fold (Relay_cleanup_entry (now - pairTimeout r)) (pending r) (r, [])"

text \<open>Authenticated connections for one session arriving one after the other: each is
  a connection, its role and the instant it enters the critical section.\<close>

fun arrivals :: "Relay \<Rightarrow> string \<Rightarrow> (conn \<times> string \<times> instant) list \<Rightarrow> Relay \<times> relay_event list" where
  "arrivals r sessionID [] = (r, [])"
| "arrivals r sessionID ((c, role, now) # rest) =
     (case pair_or_park r now c sessionID role of
        (r', evs, out) \<Rightarrow>
          (case arrivals r' sessionID rest of (r'', evs') \<Rightarrow> (r'', evs @ evs')))"

fun is_Paired :: "relay_event \<Rightarrow> bool" where
  "is_Paired (Paired sessionID h j) = True"
| "is_Paired e = False"

definition pairs_spliced :: "relay_event list \<Rightarrow> nat" where
  "pairs_spliced evs = length (filter is_Paired evs)"

text \<open>The number of pending entries of the table for a session: none or one.\<close>

definition pending_count :: "Relay \<Rightarrow> string \<Rightarrow> nat" where
  "pending_count r sessionID = (case map_of (pending r) sessionID of None \<Rightarrow> 0 | Some p \<Rightarrow> 1)"

text \<open>A validator that knows one token, of the host of session \<open>s1\<close>, and a handshake
  that presents that token for another session.\<close>

definition example_validator :: "string \<Rightarrow> (string \<times> string) option" where
  "example_validator t = (if t = ''token-of-s1'' then Some (''s1'', ''host'') else None)"

definition mismatched_handshake :: AuthMessage where
  "mismatched_handshake = \<lparr>authSessionID = ''s2'', authRelayToken = ''token-of-s1'', authRole = ''host''\<rparr>"

section \<open>The bridge (internal/client/bridge)\<close>








section \<open>The rate limiter (server/internal/ratelimit)\<close>

text \<open>
  Modelled from the spec: the token bucket of \<^verbatim>\<open>golang.org/x/time/rate\<close>
  (\<^verbatim>\<open>rate.NewLimiter\<close> and \<^verbatim>\<open>rate.Limiter.Allow\<close>), which the limiter imports and which is
  not among the sources. The spec says of it: a per-identity token bucket with a rate in
  tokens per second and a burst that is the capacity of the bucket; allow returns true
  iff the bucket currently has at least one token, decrementing on success. The bucket
  starts full, refills with the time that has passed since its last update and never holds
  more than the burst. The tokens are exact rationals here; the library computes them in
  floating point.
\<close>

record bucket =
  tokens :: rat
  lastUpdate :: instant

definition seconds :: "int \<Rightarrow> rat" where
  "seconds d = of_int d / 1000000000"

definition NewBucket :: "nat \<Rightarrow> instant \<Rightarrow> bucket" where
  "NewBucket b now = \<lparr>tokens = of_nat b, lastUpdate = now\<rparr>"

definition refill :: "rat \<Rightarrow> nat \<Rightarrow> bucket \<Rightarrow> instant \<Rightarrow> rat" where
  "refill r b bk now = min (of_nat b) (tokens bk + r * seconds (max 0 (now - lastUpdate bk)))"

definition bucket_Allow :: "rat \<Rightarrow> nat \<Rightarrow> bucket \<Rightarrow> instant \<Rightarrow> bool \<times> bucket" where
  "bucket_Allow r b bk now =
     (let t = refill r b bk now
      in if 1 \<le> t then (True, \<lparr>tokens = t - 1, lastUpdate = now\<rparr>)
         else (False, \<lparr>tokens = t, lastUpdate = now\<rparr>))"

text \<open>The limiter of the source: a bucket per caller, with the instant the caller was
  last seen.\<close>

record clientLimiter =
  limiter :: bucket
  lastSeen :: instant

record Limiter =
  limiters :: "(string \<times> clientLimiter) list"
  rate :: rat
  burst :: nat
  cleanup :: int

definition NewLimiter :: "rat \<Rightarrow> nat \<Rightarrow> Limiter" where
  "NewLimiter r b = \<lparr>limiters = [], rate = r, burst = b, cleanup = 180000000000\<rparr>"

text \<open>\<^verbatim>\<open>Limiter.Allow\<close>: the bucket of the caller is found or made, the caller is marked
  as seen, and the bucket decides.\<close>

definition Allow :: "Limiter \<Rightarrow> instant \<Rightarrow> string \<Rightarrow> bool \<times> Limiter" where
  "Allow l now ip =
     (let client = (case map_of (limiters l) ip of
                      None \<Rightarrow> \<lparr>limiter = NewBucket (burst l) now, lastSeen = now\<rparr>
                    | Some c \<Rightarrow> c)
      in case bucket_Allow (rate l) (burst l) (limiter client) now of
           (ok, bk) \<Rightarrow> (ok, l\<lparr>limiters := AList.update ip \<lparr>limiter = bk, lastSeen = now\<rparr> (limiters l)\<rparr>))"

text \<open>\<^verbatim>\<open>doCleanup\<close>: the body of the loop for one entry, and the range over the entries.\<close>

definition doCleanup_entry :: "instant \<Rightarrow> string \<times> clientLimiter \<Rightarrow> Limiter \<Rightarrow> Limiter" where
  "doCleanup_entry threshold e l =
     (if lastSeen (snd e) < threshold then l\<lparr>limiters := AList.delete (fst e) (limiters l)\<rparr> else l)"

definition doCleanup :: "Limiter \<Rightarrow> instant \<Rightarrow> Limiter" where
  "doCleanup l now = fold (doCleanup_entry (now - cleanup l)) (limiters l) l"

record MultiLimiter =
  createLimiter :: Limiter
  joinLimiter :: Limiter

definition NewMultiLimiter :: MultiLimiter where
  "NewMultiLimiter = \<lparr>createLimiter = NewLimiter (10 / 60) 3, joinLimiter = NewLimiter (30 / 60) 10\<rparr>"

definition AllowCreate :: "MultiLimiter \<Rightarrow> instant \<Rightarrow> string \<Rightarrow> bool \<times> MultiLimiter" where
  "AllowCreate m now ip = (case Allow (createLimiter m) now ip of (ok, l) \<Rightarrow> (ok, m\<lparr>createLimiter := l\<rparr>))"

definition AllowJoin :: "MultiLimiter \<Rightarrow> instant \<Rightarrow> string \<Rightarrow> bool \<times> MultiLimiter" where
  "AllowJoin m now ip = (case Allow (joinLimiter m) now ip of (ok, l) \<Rightarrow> (ok, m\<lparr>joinLimiter := l\<rparr>))"

text \<open>What happens to a limiter: a caller asks at an instant, or the janitor passes.\<close>

datatype limiter_event = AllowAt instant string | CleanupAt instant

fun event_time :: "limiter_event \<Rightarrow> instant" where
  "event_time (AllowAt t ip) = t"
| "event_time (CleanupAt t) = t"

fun limiter_step :: "Limiter \<Rightarrow> limiter_event \<Rightarrow> Limiter" where
  "limiter_step l (AllowAt t ip) = snd (Allow l t ip)"
| "limiter_step l (CleanupAt t) = doCleanup l t"

text \<open>The calls of one caller that the limiter allows, over a list of events.\<close>

fun allowed_count :: "string \<Rightarrow> Limiter \<Rightarrow> limiter_event list \<Rightarrow> nat" where
  "allowed_count ip l [] = 0"
| "allowed_count ip l (AllowAt t ip' # evs) =
     (if fst (Allow l t ip') \<and> ip' = ip then 1 else 0) + allowed_count ip (snd (Allow l t ip')) evs"
| "allowed_count ip l (CleanupAt t # evs) = allowed_count ip (doCleanup l t) evs"

text \<open>Events in the order of the clock, from an instant on and up to a later one; a
  window is the 60 seconds from its start.\<close>

fun ordered_until :: "instant \<Rightarrow> instant \<Rightarrow> limiter_event list \<Rightarrow> bool" where
  "ordered_until t hi [] = (t \<le> hi)"
| "ordered_until t hi (e # evs) = (t \<le> event_time e \<and> ordered_until (event_time e) hi evs)"

definition in_window :: "instant \<Rightarrow> limiter_event list \<Rightarrow> bool" where
  "in_window start evs = ordered_until start (start + 60000000000) evs"

text \<open>A limiter as the events leave it, seen at an instant: one entry per caller, and
  in the bucket of a caller at least no token and at most the burst, last updated and
  last seen no later than that instant.\<close>

definition bucket_ok :: "Limiter \<Rightarrow> instant \<Rightarrow> string \<Rightarrow> bool" where
  "bucket_ok l now ip =
     (case map_of (limiters l) ip of
        None \<Rightarrow> True
      | Some c \<Rightarrow> 0 \<le> tokens (limiter c) \<and> tokens (limiter c) \<le> of_nat (burst l)
                  \<and> lastUpdate (limiter c) \<le> now \<and> lastSeen c \<le> now)"

definition limiter_ok :: "Limiter \<Rightarrow> instant \<Rightarrow> string \<Rightarrow> bool" where
  "limiter_ok l now ip =
     (0 \<le> rate l \<and> 60000000000 \<le> cleanup l \<and> distinct (map fst (limiters l)) \<and> bucket_ok l now ip)"

text \<open>The tokens a caller could draw on at an instant: those of its bucket after the
  refill, or a full bucket when the limiter holds none for it.\<close>

definition avail :: "Limiter \<Rightarrow> instant \<Rightarrow> string \<Rightarrow> rat" where
  "avail l t ip =
     (case map_of (limiters l) ip of
        None \<Rightarrow> of_nat (burst l)
      | Some c \<Rightarrow> refill (rate l) (burst l) (limiter c) t)"

text \<open>What is kept from event to event inside a window that began at \<open>start\<close>, for a
  caller with \<open>k\<close> calls allowed so far in the window: the tokens used and the tokens
  still available are covered by a full bucket and the refill since the start, and a caller
  that has been allowed a call in the window has been seen in the window.\<close>

definition window_inv :: "Limiter \<Rightarrow> instant \<Rightarrow> instant \<Rightarrow> string \<Rightarrow> nat \<Rightarrow> bool" where
  "window_inv l start now ip k =
     (distinct (map fst (limiters l)) \<and> bucket_ok l now ip \<and> start \<le> now
      \<and> of_nat k + avail l now ip \<le> of_nat (burst l) + rate l * seconds (now - start)
      \<and> (k = 0 \<or> (case map_of (limiters l) ip of None \<Rightarrow> False | Some c \<Rightarrow> start \<le> lastSeen c)))"

text \<open>A limiter after a list of events.\<close>

definition limiter_run :: "Limiter \<Rightarrow> limiter_event list \<Rightarrow> Limiter" where
  "limiter_run l evs = fold (\<lambda>e l'. limiter_step l' e) evs l"

text \<open>A caller, a history (two calls and a pass of the janitor in the first ten seconds)
  and, in the window that starts at second 10, five calls within one second.\<close>

definition example_history :: "limiter_event list" where
  "example_history = [AllowAt 1000000000 ''203.0.113.7'', AllowAt 2000000000 ''203.0.113.7'',
                      CleanupAt 9000000000]"

definition example_calls :: "limiter_event list" where
  "example_calls = [AllowAt 10000000000 ''203.0.113.7'', AllowAt 10200000000 ''203.0.113.7'',
                    AllowAt 10400000000 ''203.0.113.7'', AllowAt 10600000000 ''203.0.113.7'',
                    AllowAt 10800000000 ''203.0.113.7'']"

section \<open>A store with one session, for concrete evaluations\<close>

text \<open>
  The session and the store that \<^term>\<open>Create\<close> gives on a new store with a TTL of 15
  minutes, at instant 1000, from a tape of 56 bytes \<open>a\<close>; and that store after the first
  join, from a tape of 32 bytes \<open>b\<close>.
\<close>

definition example_session :: Session where
  "example_session =
     \<lparr>ID = ''61616161616161616161616161616161'', Code = ''MFQW-CYLB-MFQW'',
      HostToken = ''6161616161616161616161616161616161616161616161616161616161616161'',
      JoinToken = [], HostConnected = False, JoinConnected = False,
      CreatedAt = 1000, ExpiresAt = 900000001000\<rparr>"

definition example_store :: Store where
  "example_store =
     \<lparr>sessions = [(''61616161616161616161616161616161'', example_session)],
      byCodes = [(''MFQW-CYLB-MFQW'', ''61616161616161616161616161616161'')],
      ttl = 900000000000\<rparr>"

definition joined_session :: Session where
  "joined_session =
     example_session\<lparr>JoinToken := ''6262626262626262626262626262626262626262626262626262626262626262''\<rparr>"

definition joined_store :: Store where
  "joined_store = example_store\<lparr>sessions := [(''61616161616161616161616161616161'', joined_session)]\<rparr>"

definition example_server :: Server where
  "example_server = \<lparr>store = joined_store, signer = NewSigner ''changeme-in-production'',
                      tokenTTL = 900000000000\<rparr>"

text \<open>A case table with one entry: U+017F, the long s, whose upper case is S.\<close>

definition example_upper :: "nat \<Rightarrow> nat" where
  "example_upper r = (if r = 0x17F then 0x53 else r)"

text \<open>The shape of a join code: three groups of four characters of the base32 alphabet
  (the upper-case letters and the digits 2 to 7), separated by dashes.\<close>

definition code_wellformed :: "string \<Rightarrow> bool" where
  "code_wellformed c =
     (length c = 14 \<and> c ! 4 = CHR ''-'' \<and> c ! 9 = CHR ''-''
      \<and> list_all (\<lambda>x. x \<in> set base32_alphabet) (take 4 c @ take 4 (drop 5 c) @ take 4 (drop 10 c)))"

text \<open>
  A second tape whose bytes for the code are those of the first session's code, and the
  session and the store that \<^term>\<open>Create\<close> gives from it on \<^term>\<open>example_store\<close> at
  instant 2000.
\<close>

definition collision_tape :: bytes where
  "collision_tape = replicate 16 (CHR ''b'') @ replicate 8 (CHR ''a'') @ replicate 32 (CHR ''c'')"

definition second_session :: Session where
  "second_session =
     \<lparr>ID = ''62626262626262626262626262626262'', Code = ''MFQW-CYLB-MFQW'',
      HostToken = ''6363636363636363636363636363636363636363636363636363636363636363'',
      JoinToken = [], HostConnected = False, JoinConnected = False,
      CreatedAt = 2000, ExpiresAt = 900000002000\<rparr>"

definition collided_store :: Store where
  "collided_store =
     \<lparr>sessions = [(''61616161616161616161616161616161'', example_session),
                  (''62626262626262626262626262626262'', second_session)],
      byCodes = [(''MFQW-CYLB-MFQW'', ''62626262626262626262626262626262'')],
      ttl = 900000000000\<rparr>"

text \<open>
  A history on \<^term>\<open>joined_store\<close> that spares the example session and its code: the
  host is marked connected, a third session is created under another code, a join is
  attempted on the first code, the janitor passes, and the third session is deleted.
\<close>

definition third_tape :: bytes where
  "third_tape = replicate 16 (CHR ''c'') @ replicate 8 (CHR ''d'') @ replicate 32 (CHR ''e'')"

definition store_history :: "store_call list" where
  "store_history =
     [CallSetHostConnected ''61616161616161616161616161616161'' True,
      CallCreate 2500 third_tape,
      CallJoin 2600 (replicate 32 (CHR ''f'')) ''MFQW-CYLB-MFQW'',
      CallCleanup 2700,
      CallDelete ''63636363636363636363636363636363'']"

section \<open>A signer and claims, for concrete evaluations\<close>








section \<open>Properties of the session store\<close>

subsection \<open>Groups of bits and the base32 alphabet\<close>

declare chunks.simps [simp del]

lemma chunks_Nil [simp]: "chunks n [] = []"
  by (simp add: chunks.simps)

lemma chunks_step: "0 < n \<Longrightarrow> xs \<noteq> [] \<Longrightarrow> chunks n xs = take n xs # chunks n (drop n xs)"
  by (subst chunks.simps) simp

lemma concat_chunks: "0 < n \<Longrightarrow> concat (chunks n xs) = xs"
proof (induction n xs rule: chunks.induct)
  case (1 n xs)
  show ?case
  proof (cases "xs = []")
    case True
    then show ?thesis by simp
  next
    case False
    then show ?thesis using "1.IH" "1.prems" by (simp add: chunks_step)
  qed
qed

lemma length_concat_le:
  "(\<And>g. g \<in> set gs \<Longrightarrow> length g \<le> n) \<Longrightarrow> length (concat gs) \<le> n * length gs"
  by (induction gs) fastforce+

lemma chunks_length_le: "g \<in> set (chunks n xs) \<Longrightarrow> length g \<le> n"
proof (induction n xs rule: chunks.induct)
  case (1 n xs)
  show ?case
  proof (cases "n = 0 \<or> xs = []")
    case True
    then show ?thesis using "1.prems" by (auto simp: chunks.simps)
  next
    case False
    then have "chunks n xs = take n xs # chunks n (drop n xs)" by (simp add: chunks_step)
    then show ?thesis using "1.prems" "1.IH" False by auto
  qed
qed

lemma nat_of_bits_less: "nat_of_bits bs < 2 ^ length bs"
  by (induction bs) auto

lemma length_bits_of: "length (bits_of b) = 8 * length b"
  by (induction b) (simp_all add: bits_of_def bits_of_char_def)

lemma base32_alphabet_nth: "i < 32 \<Longrightarrow> base32_alphabet ! i \<in> set base32_alphabet"
  by (rule nth_mem) (simp add: base32_alphabet_def)

lemma base32_encode_chars: "c \<in> set (base32_encode b) \<Longrightarrow> c \<in> set base32_alphabet"
proof -
  assume "c \<in> set (base32_encode b)"
  then obtain g where g: "g \<in> set (chunks 5 (bits_of b))"
    and c: "c = base32_alphabet ! nat_of_bits (pad_bits 5 g)"
    by (auto simp: base32_encode_def)
  have "length (pad_bits 5 g) = 5"
    using chunks_length_le [OF g] by (simp add: pad_bits_def)
  then have "nat_of_bits (pad_bits 5 g) < 32"
    using nat_of_bits_less [of "pad_bits 5 g"] by simp
  then show ?thesis using c base32_alphabet_nth by simp
qed

lemma length_base32_encode: "8 * length b \<le> 5 * length (base32_encode b)"
proof -
  have "length (concat (chunks 5 (bits_of b))) \<le> 5 * length (chunks 5 (bits_of b))"
    by (rule length_concat_le) (rule chunks_length_le)
  then show ?thesis
    by (simp add: concat_chunks length_bits_of base32_encode_def)
qed

lemma to_upper_base32: "c \<in> set base32_alphabet \<Longrightarrow> to_upper_char c = c"
  by (auto simp: base32_alphabet_def to_upper_char_def)

subsection \<open>Identifiers and codes\<close>

lemma rand_Read_Some: "n \<le> length tape \<Longrightarrow> rand_Read n tape = Some (take n tape, drop n tape)"
  by (simp add: rand_Read_def)

lemma generateID_Some:
  "n \<le> length tape \<Longrightarrow> generateID n tape = Some (hex_string (take n tape), drop n tape)"
  by (simp add: generateID_def rand_Read_Some)

lemma length_hex_string: "length (hex_string b) = 2 * length b"
  by (induction b) (simp_all add: hex_string_def hex_byte_def)

lemma generateID_nonempty:
  "0 < n \<Longrightarrow> generateID n tape = Some (x, tape') \<Longrightarrow> x \<noteq> []"
proof -
  assume n: "0 < n" and g: "generateID n tape = Some (x, tape')"
  then have "n \<le> length tape"
    by (auto simp: generateID_def rand_Read_def split: if_splits)
  then have "x = hex_string (take n tape)" and "length (take n tape) = n"
    using g by (simp_all add: generateID_Some)
  then have "length x = 2 * n" by (simp add: length_hex_string)
  then show ?thesis using n by auto
qed

lemma generateCode_wellformed:
  assumes "8 \<le> length tape"
  shows "\<exists>code. generateCode tape = Some (code, drop 8 tape) \<and> code_wellformed code"
proof -
  define e where "e = take 12 (base32_encode (take 8 tape))"
  have "8 * length (take 8 tape) \<le> 5 * length (base32_encode (take 8 tape))"
    by (rule length_base32_encode)
  then have "12 \<le> length (base32_encode (take 8 tape))"
    using assms by simp
  then have len: "length e = 12" by (simp add: e_def)
  have chars: "\<And>c. c \<in> set e \<Longrightarrow> c \<in> set base32_alphabet"
    unfolding e_def by (meson base32_encode_chars in_set_takeD)
  have up: "ToUpper e = e"
    unfolding ToUpper_def by (rule map_idI) (simp add: chars to_upper_base32)
  let ?code = "take 4 e @ ''-'' @ take 4 (drop 4 e) @ ''-'' @ take 4 (drop 8 e)"
  have gen: "generateCode tape = Some (?code, drop 8 tape)"
    using assms by (simp add: generateCode_def rand_Read_Some up e_def [symmetric] Let_def)
  have l14: "length ?code = 14" using len by simp
  have "take 4 ?code = take 4 e" using len by simp
  moreover have "take 4 (drop 5 ?code) = take 4 (drop 4 e)" using len by simp
  moreover have "take 4 (drop 10 ?code) = take 4 (drop 8 e)" using len by simp
  moreover have "?code ! 4 = CHR ''-''" using len by (simp add: nth_append)
  moreover have "?code ! 9 = CHR ''-''" using len by (simp add: nth_append)
  moreover have "list_all (\<lambda>x. x \<in> set base32_alphabet) (take 4 e @ take 4 (drop 4 e) @ take 4 (drop 8 e))"
    using chars by (auto simp: list_all_iff dest: in_set_takeD in_set_dropD)
  ultimately have "code_wellformed ?code"
    unfolding code_wellformed_def using l14 by presburger
  then show ?thesis using gen by blast
qed

subsection \<open>The example store is what the operations compute\<close>

lemma example_store_created:
  "Create (NewStore 900000000000) 1000 (replicate 56 (CHR ''a'')) = Inr (example_session, example_store, [])"
  by code_simp

lemma joined_store_joined:
  "Join example_store 2000 (replicate 32 (CHR ''b'')) ''MFQW-CYLB-MFQW'' = Inr (joined_session, joined_store, [])"
  by code_simp

subsection \<open>Session creation and the join code (C7)\<close>

lemma take_chunks: "0 < n \<Longrightarrow> take k (chunks n xs) = chunks n (take (k * n) xs)"
proof (induction k arbitrary: xs)
  case 0
  then show ?case by simp
next
  case (Suc k)
  show ?case
  proof (cases "xs = []")
    case True
    then show ?thesis by simp
  next
    case False
    define ys where "ys = take (Suc k * n) xs"
    have ne: "ys \<noteq> []"
      using False Suc.prems by (simp add: ys_def)
    have d: "drop n ys = take (k * n) (drop n xs)"
      by (simp add: ys_def drop_take)
    have t: "take n ys = take n xs"
      by (simp add: ys_def)
    have "chunks n ys = take n xs # chunks n (take (k * n) (drop n xs))"
      unfolding chunks_step [OF Suc.prems ne] d t ..
    moreover have "take (Suc k) (chunks n xs) = take n xs # take k (chunks n (drop n xs))"
      unfolding chunks_step [OF Suc.prems False] by simp
    ultimately show ?thesis
      using Suc.IH [OF Suc.prems, of "drop n xs"] by (simp add: ys_def)
  qed
qed

lemma chunks_exact:
  "0 < n \<Longrightarrow> length xs = k * n \<Longrightarrow> g \<in> set (chunks n xs) \<Longrightarrow> length g = n"
proof (induction k arbitrary: xs)
  case 0
  then show ?case by simp
next
  case (Suc k)
  then have ne: "xs \<noteq> []" by auto
  have "length (drop n xs) = k * n" using Suc.prems(2) by simp
  from Suc.IH [OF Suc.prems(1) this] Suc.prems show ?case
    by (auto simp: chunks_step [OF Suc.prems(1) ne])
qed

lemma length_chunks_exact: "0 < n \<Longrightarrow> length xs = k * n \<Longrightarrow> length (chunks n xs) = k"
proof (induction k arbitrary: xs)
  case 0
  then show ?case by simp
next
  case (Suc k)
  then have ne: "xs \<noteq> []" by auto
  have "length (drop n xs) = k * n" using Suc.prems(2) by simp
  from Suc.IH [OF Suc.prems(1) this] show ?case
    by (simp add: chunks_step [OF Suc.prems(1) ne])
qed

lemma nat_of_bits_inj:
  "length xs = length ys \<Longrightarrow> nat_of_bits xs = nat_of_bits ys \<Longrightarrow> xs = ys"
proof (induction xs ys rule: list_induct2)
  case Nil
  then show ?case by simp
next
  case (Cons x xs y ys)
  have "nat_of_bits xs < 2 ^ length ys" "nat_of_bits ys < 2 ^ length ys"
    using nat_of_bits_less [of xs] nat_of_bits_less [of ys] Cons.hyps by simp_all
  then have "x = y \<and> nat_of_bits xs = nat_of_bits ys"
    using Cons.prems Cons.hyps by (auto split: if_splits)
  then show ?case using Cons.IH by simp
qed

lemma base32_alphabet_inj:
  "i < 32 \<Longrightarrow> j < 32 \<Longrightarrow> base32_alphabet ! i = base32_alphabet ! j \<Longrightarrow> i = j"
proof -
  have "distinct base32_alphabet" and "length base32_alphabet = 32"
    by (simp_all add: base32_alphabet_def)
  then show "i < 32 \<Longrightarrow> j < 32 \<Longrightarrow> base32_alphabet ! i = base32_alphabet ! j \<Longrightarrow> i = j"
    by (simp add: nth_eq_iff_index_eq)
qed

lemma base32_digit_inj:
  assumes "length g = 5" and "length h = 5"
    and "base32_alphabet ! nat_of_bits g = base32_alphabet ! nat_of_bits h"
  shows "g = h"
proof -
  have "nat_of_bits g < 32" "nat_of_bits h < 32"
    using nat_of_bits_less [of g] nat_of_bits_less [of h] assms(1,2) by simp_all
  then have "nat_of_bits g = nat_of_bits h"
    using assms(3) by (rule base32_alphabet_inj)
  then show ?thesis using assms(1,2) by (intro nat_of_bits_inj) simp_all
qed

lemma base32_digits_inj:
  assumes "\<And>g. g \<in> set gs \<Longrightarrow> length g = 5" and "\<And>h. h \<in> set hs \<Longrightarrow> length h = 5"
    and "map (\<lambda>g. base32_alphabet ! nat_of_bits g) gs = map (\<lambda>g. base32_alphabet ! nat_of_bits g) hs"
  shows "gs = hs"
  using assms
proof (induction gs arbitrary: hs)
  case Nil
  then show ?case by simp
next
  case (Cons g gs)
  then obtain h hs' where hs: "hs = h # hs'" by (cases hs) auto
  have "g = h"
    using Cons.prems hs by (intro base32_digit_inj) simp_all
  moreover have "gs = hs'"
    using Cons.prems hs by (intro Cons.IH) simp_all
  ultimately show ?case using hs by simp
qed

text \<open>The twelve characters of a code are the twelve groups of five bits of the first
  sixty bits read.\<close>

lemma generateCode_rendering:
  assumes "8 \<le> length tape"
  shows "generateCode tape =
           Some (let e = map (\<lambda>g. base32_alphabet ! nat_of_bits g)
                           (chunks 5 (take 60 (bits_of (take 8 tape))))
                 in take 4 e @ ''-'' @ take 4 (drop 4 e) @ ''-'' @ take 4 (drop 8 e),
                 drop 8 tape)"
proof -
  define B where "B = bits_of (take 8 tape)"
  have lenB: "length B = 64"
    using assms by (simp add: B_def length_bits_of)
  have len60: "length (take 60 B) = 12 * 5"
    using lenB by simp
  have five: "length g = 5" if "g \<in> set (chunks 5 (take 60 B))" for g
    using that by (intro chunks_exact [OF _ len60]) simp_all
  have "take 12 (base32_encode (take 8 tape))
          = map (\<lambda>g. base32_alphabet ! nat_of_bits (pad_bits 5 g)) (chunks 5 (take 60 B))"
    by (simp add: base32_encode_def take_map take_chunks B_def)
  also have "\<dots> = map (\<lambda>g. base32_alphabet ! nat_of_bits g) (chunks 5 (take 60 B))"
    by (rule map_cong) (simp_all add: five pad_bits_def)
  finally have e: "take 12 (base32_encode (take 8 tape))
                     = map (\<lambda>g. base32_alphabet ! nat_of_bits g) (chunks 5 (take 60 B))" .
  have chars: "c \<in> set base32_alphabet"
    if "c \<in> set (map (\<lambda>g. base32_alphabet ! nat_of_bits g) (chunks 5 (take 60 B)))" for c
    using that unfolding e [symmetric] by (meson base32_encode_chars in_set_takeD)
  have up: "ToUpper (map (\<lambda>g. base32_alphabet ! nat_of_bits g) (chunks 5 (take 60 B)))
              = map (\<lambda>g. base32_alphabet ! nat_of_bits g) (chunks 5 (take 60 B))"
    unfolding ToUpper_def by (rule map_idI) (simp add: chars to_upper_base32)
  show ?thesis
    using assms unfolding generateCode_def B_def [symmetric]
    by (simp add: rand_Read_Some e up B_def [symmetric] Let_def)
qed

lemma regroup:
  assumes "length e = 12"
  shows "take 4 e @ take 4 (drop 4 e) @ take 4 (drop 8 e) = e"
proof -
  have "take 4 (drop 8 e) = drop 4 (drop 4 e)"
    using assms by simp
  then show ?thesis
    by (simp only: append_take_drop_id)
qed

lemma grouped_inj:
  assumes "length e = 12" and "length f = 12"
    and "take 4 e @ ''-'' @ take 4 (drop 4 e) @ ''-'' @ take 4 (drop 8 e)
           = take 4 f @ ''-'' @ take 4 (drop 4 f) @ ''-'' @ take 4 (drop 8 f)"
  shows "e = f"
proof -
  have a: "take 4 e = take 4 f" and b: "take 4 (drop 4 e) = take 4 (drop 4 f)"
    and c: "take 4 (drop 8 e) = take 4 (drop 8 f)"
    using assms by simp_all
  have "e = take 4 e @ take 4 (drop 4 e) @ take 4 (drop 8 e)"
    using regroup [OF assms(1)] by simp
  also have "\<dots> = take 4 f @ take 4 (drop 4 f) @ take 4 (drop 8 f)"
    by (simp only: a b c)
  also have "\<dots> = f"
    by (rule regroup [OF assms(2)])
  finally show ?thesis .
qed

lemma generateCode_same_code_iff:
  assumes "generateCode tape = Some (c, r)" and "generateCode tape2 = Some (c2, r2)"
  shows "(c2 = c) = (take 60 (bits_of (take 8 tape2)) = take 60 (bits_of (take 8 tape)))"
proof -
  have long: "8 \<le> length tape" "8 \<le> length tape2"
    using assms by (auto simp: generateCode_def rand_Read_def split: if_splits)
  define B where "B = take 60 (bits_of (take 8 tape))"
  define B2 where "B2 = take 60 (bits_of (take 8 tape2))"
  define e where "e = map (\<lambda>g. base32_alphabet ! nat_of_bits g) (chunks 5 B)"
  define e2 where "e2 = map (\<lambda>g. base32_alphabet ! nat_of_bits g) (chunks 5 B2)"
  have len: "length B = 12 * 5" "length B2 = 12 * 5"
    using long by (simp_all add: B_def B2_def length_bits_of)
  have five: "length g = 5" if "g \<in> set (chunks 5 B)" for g
    using that by (intro chunks_exact [OF _ len(1)]) simp_all
  have five2: "length g = 5" if "g \<in> set (chunks 5 B2)" for g
    using that by (intro chunks_exact [OF _ len(2)]) simp_all
  have l12: "length e = 12" "length e2 = 12"
    using length_chunks_exact [OF _ len(1)] length_chunks_exact [OF _ len(2)]
    by (simp_all add: e_def e2_def)
  have c: "c = take 4 e @ ''-'' @ take 4 (drop 4 e) @ ''-'' @ take 4 (drop 8 e)"
    using assms(1) unfolding generateCode_rendering [OF long(1)] by (simp add: Let_def e_def B_def)
  have c2: "c2 = take 4 e2 @ ''-'' @ take 4 (drop 4 e2) @ ''-'' @ take 4 (drop 8 e2)"
    using assms(2) unfolding generateCode_rendering [OF long(2)] by (simp add: Let_def e2_def B2_def)
  show ?thesis
  proof
    assume "c2 = c"
    then have "e2 = e"
      unfolding c c2 by (intro grouped_inj [OF l12(2) l12(1)])
    then have "chunks 5 B2 = chunks 5 B"
      unfolding e_def e2_def using five five2 by (intro base32_digits_inj) simp_all
    then have "concat (chunks 5 B2) = concat (chunks 5 B)" by simp
    then show "take 60 (bits_of (take 8 tape2)) = take 60 (bits_of (take 8 tape))"
      by (simp add: concat_chunks B_def B2_def)
  next
    assume "take 60 (bits_of (take 8 tape2)) = take 60 (bits_of (take 8 tape))"
    then have "B2 = B" by (simp add: B_def B2_def)
    then show "c2 = c"
      unfolding c c2 e_def e2_def by simp
  qed
qed

lemma Create_Inr:
  assumes "Create s now tape = Inr (session, s', rest)"
  shows "generateCode (drop 16 tape) = Some (Code session, drop 24 tape)"
    and "s' = s\<lparr>sessions := AList.update (ID session) session (sessions s),
                 byCodes := AList.update (Code session) (ID session) (byCodes s)\<rparr>"
    and "JoinToken session = []"
proof -
  obtain sid tape1 where g1: "generateID 16 tape = Some (sid, tape1)"
    using assms by (auto simp: Create_def split: option.splits)
  then have t1: "tape1 = drop 16 tape"
    by (auto simp: generateID_def rand_Read_def split: if_splits)
  obtain code tape2 where g2: "generateCode tape1 = Some (code, tape2)"
    using assms g1 by (auto simp: Create_def split: option.splits)
  then have t2: "tape2 = drop 8 tape1"
    by (auto simp: generateCode_def rand_Read_def Let_def split: if_splits)
  obtain tok tape3 where g3: "generateID 32 tape2 = Some (tok, tape3)"
    using assms g1 g2 by (auto simp: Create_def split: option.splits)
  have x: "session = \<lparr>ID = sid, Code = code, HostToken = tok, JoinToken = [],
                        HostConnected = False, JoinConnected = False,
                        CreatedAt = now, ExpiresAt = now + ttl s\<rparr>"
    using assms g1 g2 g3 by (simp add: Create_def Let_def)
  show "generateCode (drop 16 tape) = Some (Code session, drop 24 tape)"
    using g2 by (simp add: x t1 t2 add.commute)
  show "s' = s\<lparr>sessions := AList.update (ID session) session (sessions s),
                 byCodes := AList.update (Code session) (ID session) (byCodes s)\<rparr>"
    using assms g1 g2 g3 by (simp add: Create_def Let_def x)
  show "JoinToken session = []"
    by (simp add: x)
qed

subsection \<open>The code index through a history\<close>

lemma fold_cleanup_entry_byCodes_distinct:
  "distinct (map fst (byCodes st)) \<Longrightarrow> distinct (map fst (byCodes (fold (cleanup_entry now) xs st)))"
  by (induction xs arbitrary: st) (simp_all add: cleanup_entry_def distinct_delete)

lemma store_step_byCodes_distinct:
  assumes "distinct (map fst (byCodes s))"
  shows "distinct (map fst (byCodes (store_step c s)))"
proof (cases c)
  case (CallCreate now tape)
  then show ?thesis
    using assms
    by (auto simp: Create_def Let_def distinct_update split: option.splits)
next
  case (CallJoin now tape code)
  then show ?thesis
    using assms by (auto simp: Join_def Let_def split: option.splits)
next
  case (CallSetHostConnected sid b)
  then show ?thesis
    using assms by (auto simp: SetHostConnected_def split: option.splits)
next
  case (CallSetJoinConnected sid b)
  then show ?thesis
    using assms by (auto simp: SetJoinConnected_def split: option.splits)
next
  case (CallDelete sid)
  then show ?thesis
    using assms by (auto simp: Delete_def distinct_delete split: option.splits)
next
  case (CallCleanup now)
  then show ?thesis
    using assms by (simp add: Store_cleanup_def fold_cleanup_entry_byCodes_distinct)
qed

lemma store_run_byCodes_distinct:
  "distinct (map fst (byCodes s)) \<Longrightarrow> distinct (map fst (byCodes (store_run calls s)))"
  unfolding store_run_def
  by (induction calls arbitrary: s) (simp_all add: store_step_byCodes_distinct)

lemma collided_store_created:
  "Create example_store 2000 collision_tape = Inr (second_session, collided_store, [])"
  by code_simp

text \<open>
  C7, as the code has it. When the entropy source delivers, \<^term>\<open>Create\<close> succeeds and
  reads 56 bytes whatever the store holds; the 8 bytes (64 bits) after the session id are
  drawn for the code, whose twelve characters are the characters of the base32 alphabet
  for the twelve groups of five bits of the first 60 of these bits, in three
  dash-separated groups of four. So another creation gives the same code exactly when
  its first 60 bits are the same. The code is never compared with the codes of the
  sessions in the store and there is no redraw: after the call the code index maps the
  code of the new session to the new session, whatever it held for that code before.
  The index has one entry per code, after the call and after every history of calls
  that follows, as it has after every history from the empty store.
\<close>

theorem Create_code_format_and_index:
  assumes "56 \<le> length tape"
    and "distinct (map fst (byCodes s))"
  shows "\<exists>session s'.
           Create s now tape = Inr (session, s', drop 56 tape)
           \<and> Code session =
               (let e = map (\<lambda>g. base32_alphabet ! nat_of_bits g)
                          (chunks 5 (take 60 (bits_of (take 8 (drop 16 tape)))))
                in take 4 e @ ''-'' @ take 4 (drop 4 e) @ ''-'' @ take 4 (drop 8 e))
           \<and> code_wellformed (Code session)
           \<and> (\<forall>s2 now2 tape2 session2 s2' rest2.
                 Create s2 now2 tape2 = Inr (session2, s2', rest2) \<longrightarrow>
                 (Code session2 = Code session)
                   = (take 60 (bits_of (take 8 (drop 16 tape2)))
                        = take 60 (bits_of (take 8 (drop 16 tape)))))
           \<and> map_of (byCodes s') (Code session) = Some (ID session)
           \<and> map_of (sessions s') (ID session) = Some session
           \<and> (\<forall>calls. distinct (map fst (byCodes (store_run calls s'))))
           \<and> (\<forall>t calls. distinct (map fst (byCodes (store_run calls (NewStore t)))))"
proof -
  have l8: "8 \<le> length (drop 16 tape)" using assms(1) by simp
  from generateCode_wellformed [OF l8] obtain code
    where gc: "generateCode (drop 16 tape) = Some (code, drop 24 tape)" and wf: "code_wellformed code"
    by (auto simp: add.commute)
  have g1: "generateID 16 tape = Some (hex_string (take 16 tape), drop 16 tape)"
    using assms(1) by (simp add: generateID_Some)
  have g3: "generateID 32 (drop 24 tape) = Some (hex_string (take 32 (drop 24 tape)), drop 56 tape)"
    using assms(1) by (simp add: generateID_Some add.commute)
  define session where
    "session = \<lparr>ID = hex_string (take 16 tape), Code = code,
                 HostToken = hex_string (take 32 (drop 24 tape)), JoinToken = [],
                 HostConnected = False, JoinConnected = False,
                 CreatedAt = now, ExpiresAt = now + ttl s\<rparr>"
  define s' where
    "s' = s\<lparr>sessions := AList.update (ID session) session (sessions s),
              byCodes := AList.update (Code session) (ID session) (byCodes s)\<rparr>"
  have created: "Create s now tape = Inr (session, s', drop 56 tape)"
    by (simp add: Create_def g1 gc g3 Let_def session_def s'_def)
  have code: "Code session = code"
    by (simp add: session_def)
  have rendering: "Code session =
      (let e = map (\<lambda>g. base32_alphabet ! nat_of_bits g)
                 (chunks 5 (take 60 (bits_of (take 8 (drop 16 tape)))))
       in take 4 e @ ''-'' @ take 4 (drop 4 e) @ ''-'' @ take 4 (drop 8 e))"
    using gc unfolding generateCode_rendering [OF l8] code by simp
  have same: "(Code session2 = Code session)
                = (take 60 (bits_of (take 8 (drop 16 tape2))) = take 60 (bits_of (take 8 (drop 16 tape))))"
    if "Create s2 now2 tape2 = Inr (session2, s2', rest2)" for s2 now2 tape2 session2 s2' rest2
    using gc Create_Inr(1) [OF that] unfolding code by (rule generateCode_same_code_iff)
  have index: "map_of (byCodes s') (Code session) = Some (ID session)"
    and entry: "map_of (sessions s') (ID session) = Some session"
    by (simp_all add: s'_def update_conv')
  have d': "distinct (map fst (byCodes s'))"
    using assms(2) by (simp add: s'_def distinct_update)
  have after: "distinct (map fst (byCodes (store_run calls s')))" for calls
    using d' by (rule store_run_byCodes_distinct)
  have reachable: "distinct (map fst (byCodes (store_run calls (NewStore t))))" for t calls
    by (rule store_run_byCodes_distinct) (simp add: NewStore_def)
  show ?thesis
    using created rendering wf code same index entry after reachable by blast
qed

theorem Create_code_format_and_index_witness:
  "Create (NewStore 900000000000) 1000 (replicate 56 (CHR ''a'')) = Inr (example_session, example_store, [])
   \<and> code_wellformed (Code example_session)
   \<and> map_of (byCodes example_store) (Code example_session) = Some (ID example_session)
   \<and> (Code second_session = Code example_session)
       = (take 60 (bits_of (take 8 (drop 16 collision_tape)))
            = take 60 (bits_of (take 8 (drop 16 (replicate 56 (CHR ''a''))))))
   \<and> distinct (map fst (byCodes (store_run store_history example_store)))"
proof -
  have a: "56 \<le> length (replicate 56 (CHR ''a''))" by simp
  have b: "distinct (map fst (byCodes (NewStore 900000000000)))" by (simp add: NewStore_def)
  from Create_code_format_and_index [OF a b, of 1000] obtain session s'
    where created: "Create (NewStore 900000000000) 1000 (replicate 56 (CHR ''a''))
                      = Inr (session, s', drop 56 (replicate 56 (CHR ''a'')))"
      and wf: "code_wellformed (Code session)"
      and same: "\<And>s2 now2 tape2 session2 s2' rest2.
                   Create s2 now2 tape2 = Inr (session2, s2', rest2) \<Longrightarrow>
                   (Code session2 = Code session)
                     = (take 60 (bits_of (take 8 (drop 16 tape2)))
                          = take 60 (bits_of (take 8 (drop 16 (replicate 56 (CHR ''a''))))))"
      and index: "map_of (byCodes s') (Code session) = Some (ID session)"
      and after: "\<And>calls. distinct (map fst (byCodes (store_run calls s')))"
    by blast
  have session: "session = example_session" and s': "s' = example_store"
    using created example_store_created by simp_all
  show ?thesis
    using example_store_created wf index same [OF collided_store_created] after [of store_history]
    unfolding session s' by blast
qed

text \<open>
  C7 as stated fails: a second \<^term>\<open>Create\<close> whose entropy gives the code of a live
  session succeeds with that same code. Both sessions are live under their ids, they
  carry the same code, and the code now leads to the second session only.
\<close>

theorem Create_overwrites_colliding_code_counterexample:
  "Create example_store 2000 collision_tape = Inr (second_session, collided_store, [])
   \<and> Code second_session = Code example_session
   \<and> ID second_session \<noteq> ID example_session
   \<and> GetByID collided_store 3000 (ID example_session) = Some example_session
   \<and> GetByID collided_store 3000 (ID second_session) = Some second_session
   \<and> GetByCode collided_store 3000 (Code example_session) = Some second_session"
  by code_simp

subsection \<open>Expired sessions (C6)\<close>

text \<open>What holds of C6: the lookups by id and by code, the join and the token check
  treat an expired session as absent, and the janitor removes it at its next pass.\<close>

lemma expired_lookups_not_found:
  assumes "map_of (sessions s) sid = Some session"
    and "After now (ExpiresAt session)"
  shows "GetByID s now sid = None"
    and "map_of (byCodes s) code = Some sid \<Longrightarrow> GetByCode s now code = None"
    and "map_of (byCodes s) code = Some sid \<Longrightarrow> Join s now tape code = Inl SessionExpired"
    and "ValidateToken s now sid token role = False"
  using assms by (simp_all add: GetByID_def GetByCode_def Join_def ValidateToken_def)

lemma fold_cleanup_entry_sessions:
  "map_of (sessions (fold (cleanup_entry now) xs st)) sid =
     (if \<exists>x. (sid, x) \<in> set xs \<and> After now (ExpiresAt x) then None else map_of (sessions st) sid)"
proof (induction xs arbitrary: st)
  case Nil
  then show ?case by simp
next
  case (Cons e xs)
  obtain k x where e: "e = (k, x)" by (cases e)
  show ?case
    unfolding fold_simps Cons.IH
    by (auto simp: e cleanup_entry_def delete_conv')
qed

lemma Store_cleanup_removes_expired:
  assumes "map_of (sessions s) sid = Some session"
    and "After now (ExpiresAt session)"
  shows "map_of (sessions (Store_cleanup s now)) sid = None"
proof -
  have "(sid, session) \<in> set (sessions s)"
    using assms(1) by (rule map_of_SomeD)
  then show ?thesis
    unfolding Store_cleanup_def fold_cleanup_entry_sessions using assms(2) by auto
qed

lemma Store_cleanup_keeps_live:
  assumes "map_of (sessions s) sid = Some session"
    and "\<not> After now (ExpiresAt session)"
    and "distinct (map fst (sessions s))"
  shows "map_of (sessions (Store_cleanup s now)) sid = Some session"
proof -
  have "x = session" if "(sid, x) \<in> set (sessions s)" for x
    using that assms(1,3) by (metis map_of_is_SomeI option.inject)
  then show ?thesis
    unfolding Store_cleanup_def fold_cleanup_entry_sessions using assms(1,2) by auto
qed

lemma setters_ignore_expiry:
  assumes "map_of (sessions s) sid = Some session"
  shows "SetHostConnected s sid b
           = Inr (s\<lparr>sessions := AList.update sid (session\<lparr>HostConnected := b\<rparr>) (sessions s)\<rparr>)"
    and "SetJoinConnected s sid b
           = Inr (s\<lparr>sessions := AList.update sid (session\<lparr>JoinConnected := b\<rparr>) (sessions s)\<rparr>)"
  using assms by (simp_all add: SetHostConnected_def SetJoinConnected_def)

text \<open>
  C6 asks that the liveness setters return not-found for a session that has expired and
  is still in the store. They do not read the clock: on the example session, two seconds
  past its expiry, the lookups find nothing, yet both setters succeed and write the flag
  into the expired record. The janitor's next pass then removes the record.
\<close>

theorem setters_succeed_on_expired_session:
  "After 900000002000 (ExpiresAt example_session)
   \<and> GetByID example_store 900000002000 (ID example_session) = None
   \<and> GetByCode example_store 900000002000 (Code example_session) = None
   \<and> SetHostConnected example_store (ID example_session) True
       = Inr (example_store\<lparr>sessions := [(ID example_session, example_session\<lparr>HostConnected := True\<rparr>)]\<rparr>)
   \<and> SetJoinConnected example_store (ID example_session) True
       = Inr (example_store\<lparr>sessions := [(ID example_session, example_session\<lparr>JoinConnected := True\<rparr>)]\<rparr>)
   \<and> sessions (Store_cleanup example_store 900000002000) = []"
  by (simp add: After_def GetByID_def GetByCode_def SetHostConnected_def SetJoinConnected_def Store_cleanup_def cleanup_entry_def
        example_store_def example_session_def)

subsection \<open>The joiner token before a join (C10)\<close>

text \<open>
  C10. For a live session whose join token has not been minted (it is the empty string,
  as \<^term>\<open>Create\<close> leaves it), \<^term>\<open>ValidateToken\<close> for the role joiner accepts a
  token exactly when it is the empty string.
\<close>

theorem ValidateToken_joiner_before_join:
  assumes "map_of (sessions s) sid = Some session"
    and "\<not> After now (ExpiresAt session)"
    and "JoinToken session = []"
  shows "ValidateToken s now sid t ''joiner'' = (t = [])"
  using assms by (auto simp: ValidateToken_def)

theorem ValidateToken_joiner_before_join_witness:
  "ValidateToken example_store 2000 ''61616161616161616161616161616161'' [] ''joiner''
   \<and> \<not> ValidateToken example_store 2000 ''61616161616161616161616161616161'' ''x'' ''joiner''"
proof -
  have a: "map_of (sessions example_store) ''61616161616161616161616161616161'' = Some example_session"
    by (simp add: example_store_def)
  have b: "\<not> After 2000 (ExpiresAt example_session)"
    by (simp add: After_def example_session_def)
  have c: "JoinToken example_session = []"
    by (simp add: example_session_def)
  show ?thesis
    using ValidateToken_joiner_before_join [OF a b c, of "[]"]
          ValidateToken_joiner_before_join [OF a b c, of "''x''"]
    by simp
qed

subsection \<open>Joining once (C2)\<close>

lemma Join_conflict:
  assumes "map_of (byCodes s) code = Some sid"
    and "map_of (sessions s) sid = Some session"
    and "\<not> After now (ExpiresAt session)"
    and "JoinToken session \<noteq> []"
  shows "Join s now tape code = Inl SessionAlreadyHasJoiner"
  using assms by (simp add: Join_def)

lemma handleJoin_Join_error:
  assumes "Join (store srv) now tape (normalize_code upper reqCode) = Inl e"
  shows "handleJoin upper srv now tape ''POST'' True (Some reqCode)
           = (Error 404 ''Invalid or expired code'', srv, tape)"
  using assms by (simp add: handleJoin_def)

lemma handleJoin_status:
  "status (fst (handleJoin upper srv now tape method allowed body)) \<in> {200, 400, 404, 405, 429, 500}"
  by (auto simp: handleJoin_def split: option.splits sum.splits)

lemma Join_Inr:
  assumes "Join s now tape code = Inr (session', s', rest)"
  shows "\<exists>sid0 session0. map_of (sessions s) sid0 = Some session0 \<and> JoinToken session0 = []
           \<and> s' = s\<lparr>sessions := AList.update sid0 session' (sessions s)\<rparr>"
  using assms by (auto simp: Join_def Let_def split: option.splits if_splits)

lemma fold_cleanup_entry_byCodes:
  "map_of (byCodes (fold (cleanup_entry now) xs st)) c =
     (if \<exists>e \<in> set xs. After now (ExpiresAt (snd e)) \<and> Code (snd e) = c then None
      else map_of (byCodes st) c)"
proof (induction xs arbitrary: st)
  case Nil
  then show ?case by simp
next
  case (Cons e xs)
  show ?case
    unfolding fold_simps Cons.IH
    by (auto simp: cleanup_entry_def delete_conv')
qed

text \<open>A session that has a joiner keeps its place, its join token and its expiry
  through a call that spares it.\<close>

lemma store_step_keeps_joined:
  assumes idx: "map_of (byCodes s) code = Some sid"
    and rec: "map_of (sessions s) sid = Some x"
    and tok: "JoinToken x \<noteq> []"
    and sp: "spares code sid c s"
  shows "map_of (byCodes (store_step c s)) code = Some sid
         \<and> (\<exists>x'. map_of (sessions (store_step c s)) sid = Some x'
                  \<and> JoinToken x' \<noteq> [] \<and> ExpiresAt x' = ExpiresAt x)"
proof (cases c)
  case (CallCreate now tape)
  show ?thesis
  proof (cases "Create s now tape")
    case (Inl e)
    then show ?thesis using CallCreate idx rec tok by simp
  next
    case (Inr r)
    obtain y s' rest where r: "r = (y, s', rest)" by (cases r)
    have ne: "ID y \<noteq> sid" "Code y \<noteq> code"
      using sp CallCreate Inr r by simp_all
    have s': "s' = s\<lparr>sessions := AList.update (ID y) y (sessions s),
                      byCodes := AList.update (Code y) (ID y) (byCodes s)\<rparr>"
      using Inr r by (intro Create_Inr(2)) simp
    show ?thesis
      using CallCreate Inr r idx rec tok ne by (simp add: s' update_conv')
  qed
next
  case (CallJoin now tape code')
  show ?thesis
  proof (cases "Join s now tape code'")
    case (Inl e)
    then show ?thesis using CallJoin idx rec tok by simp
  next
    case (Inr r)
    obtain y s' rest where r: "r = (y, s', rest)" by (cases r)
    from Join_Inr [of s now tape code' y s' rest] Inr r obtain sid0 x0
      where x0: "map_of (sessions s) sid0 = Some x0" "JoinToken x0 = []"
        and s': "s' = s\<lparr>sessions := AList.update sid0 y (sessions s)\<rparr>"
      by auto
    have "sid0 \<noteq> sid" using x0 rec tok by auto
    then show ?thesis
      using CallJoin Inr r idx rec tok by (simp add: s' update_conv')
  qed
next
  case (CallSetHostConnected sid' b)
  then show ?thesis
    using idx rec tok
    by (cases "map_of (sessions s) sid'") (auto simp: SetHostConnected_def update_conv')
next
  case (CallSetJoinConnected sid' b)
  then show ?thesis
    using idx rec tok
    by (cases "map_of (sessions s) sid'") (auto simp: SetJoinConnected_def update_conv')
next
  case (CallDelete sid')
  then show ?thesis
    using idx rec tok sp
    by (cases "map_of (sessions s) sid'") (auto simp: Delete_def delete_conv')
next
  case (CallCleanup now)
  have all: "\<And>e. e \<in> set (sessions s) \<Longrightarrow> After now (ExpiresAt (snd e)) \<Longrightarrow> fst e \<noteq> sid \<and> Code (snd e) \<noteq> code"
    using sp CallCleanup by (auto simp: list_all_iff)
  have a: "\<not> (\<exists>e \<in> set (sessions s). After now (ExpiresAt (snd e)) \<and> Code (snd e) = code)"
    using all by blast
  have b: "\<not> (\<exists>y. (sid, y) \<in> set (sessions s) \<and> After now (ExpiresAt y))"
    using all by fastforce
  show ?thesis
    using CallCleanup idx rec tok a b
    by (simp add: Store_cleanup_def fold_cleanup_entry_byCodes fold_cleanup_entry_sessions)
qed

lemma store_run_keeps_joined:
  assumes "map_of (byCodes s) code = Some sid"
    and "map_of (sessions s) sid = Some x"
    and "JoinToken x \<noteq> []"
    and "spared code sid calls s"
  shows "map_of (byCodes (store_run calls s)) code = Some sid
         \<and> (\<exists>x'. map_of (sessions (store_run calls s)) sid = Some x'
                  \<and> JoinToken x' \<noteq> [] \<and> ExpiresAt x' = ExpiresAt x)"
  using assms
proof (induction calls arbitrary: s x)
  case Nil
  then show ?case by (simp add: store_run_def)
next
  case (Cons c calls)
  have sp: "spares code sid c s" and rest: "spared code sid calls (store_step c s)"
    using Cons.prems(4) by simp_all
  from store_step_keeps_joined [OF Cons.prems(1-3) sp] obtain x'
    where idx: "map_of (byCodes (store_step c s)) code = Some sid"
      and rec: "map_of (sessions (store_step c s)) sid = Some x'"
      and tok: "JoinToken x' \<noteq> []" and ex: "ExpiresAt x' = ExpiresAt x"
    by blast
  from Cons.IH [OF idx rec tok rest] show ?case
    by (simp add: store_run_def ex)
qed

lemma normalize_code_long_s:
  "normalize_code example_upper (''ssss-ssss-sss'' @ [CHR 0xC5, CHR 0xBF]) = ''SSSS-SSSS-SSSS''"
  by code_simp

lemma store_history_spares:
  "spared ''MFQW-CYLB-MFQW'' ''61616161616161616161616161616161'' store_history joined_store"
  by code_simp

text \<open>
  C2, as the code has it. For a code that leads to a live session without a joiner, the
  first join succeeds when the entropy source delivers, and installs a join token that is
  not empty. From then on, through every history of calls on the store that creates,
  deletes or reaps no session with that id or that code, every join on that code made
  before the expiry of the session fails with the error "session already has a joiner",
  and the join endpoint answers it with status 404. That is the status the endpoint gives
  to every failure of the store's join; the statuses it can give are 200, 400, 404, 405,
  429 and 500, and 409 is not among them.
\<close>

theorem Join_once_then_conflict_as_404:
  assumes "map_of (byCodes s) code = Some sid"
    and "map_of (sessions s) sid = Some session"
    and "\<not> After now (ExpiresAt session)"
    and "JoinToken session = []"
    and "32 \<le> length tape"
  shows "\<exists>session' s'.
           Join s now tape code = Inr (session', s', drop 32 tape)
           \<and> JoinToken session' \<noteq> []
           \<and> (\<forall>calls now' tape'.
                 spared code sid calls s' \<and> \<not> After now' (ExpiresAt session) \<longrightarrow>
                 Join (store_run calls s') now' tape' code = Inl SessionAlreadyHasJoiner)
           \<and> (\<forall>calls now' tape' upper sg t reqCode.
                 spared code sid calls s' \<and> \<not> After now' (ExpiresAt session)
                 \<and> normalize_code upper reqCode = code \<longrightarrow>
                 handleJoin upper \<lparr>store = store_run calls s', signer = sg, tokenTTL = t\<rparr>
                     now' tape' ''POST'' True (Some reqCode)
                   = (Error 404 ''Invalid or expired code'',
                      \<lparr>store = store_run calls s', signer = sg, tokenTTL = t\<rparr>, tape'))
           \<and> (\<forall>upper srv now' tape' reqCode e.
                 Join (store srv) now' tape' (normalize_code upper reqCode) = Inl e \<longrightarrow>
                 handleJoin upper srv now' tape' ''POST'' True (Some reqCode)
                   = (Error 404 ''Invalid or expired code'', srv, tape'))
           \<and> (\<forall>upper srv now' tape' method allowed body.
                 status (fst (handleJoin upper srv now' tape' method allowed body))
                   \<in> {200, 400, 404, 405, 429, 500}
                 \<and> status (fst (handleJoin upper srv now' tape' method allowed body)) \<noteq> 409)"
proof -
  define tok where "tok = hex_string (take 32 tape)"
  define session' where "session' = session\<lparr>JoinToken := tok\<rparr>"
  define s' where "s' = s\<lparr>sessions := AList.update sid session' (sessions s)\<rparr>"
  have gen: "generateID 32 tape = Some (tok, drop 32 tape)"
    using assms(5) by (simp add: generateID_Some tok_def)
  have nonempty: "tok \<noteq> []"
    using generateID_nonempty [OF _ gen] by simp
  have first: "Join s now tape code = Inr (session', s', drop 32 tape)"
    using assms(1-4) gen by (simp add: Join_def session'_def s'_def Let_def)
  have idx: "map_of (byCodes s') code = Some sid"
    using assms(1) by (simp add: s'_def)
  have rec: "map_of (sessions s') sid = Some session'"
    by (simp add: s'_def update_conv')
  have tok': "JoinToken session' \<noteq> []"
    using nonempty by (simp add: session'_def)
  have later: "Join (store_run calls s') now' tape' code = Inl SessionAlreadyHasJoiner"
    if "spared code sid calls s'" and "\<not> After now' (ExpiresAt session)" for calls now' tape'
  proof -
    from store_run_keeps_joined [OF idx rec tok' that(1)] obtain x
      where i: "map_of (byCodes (store_run calls s')) code = Some sid"
        and r: "map_of (sessions (store_run calls s')) sid = Some x"
        and t: "JoinToken x \<noteq> []" and e: "ExpiresAt x = ExpiresAt session'"
      by blast
    have "\<not> After now' (ExpiresAt x)"
      using that(2) by (simp add: e session'_def)
    then show ?thesis
      using t by (intro Join_conflict [OF i r])
  qed
  have http: "handleJoin upper \<lparr>store = store_run calls s', signer = sg, tokenTTL = t\<rparr>
                  now' tape' ''POST'' True (Some reqCode)
                = (Error 404 ''Invalid or expired code'',
                   \<lparr>store = store_run calls s', signer = sg, tokenTTL = t\<rparr>, tape')"
    if "spared code sid calls s'" and "\<not> After now' (ExpiresAt session)"
      and "normalize_code upper reqCode = code" for calls now' tape' upper sg t reqCode
    using later [OF that(1,2)] that(3)
    by (intro handleJoin_Join_error [where e = SessionAlreadyHasJoiner]) simp
  have every: "handleJoin upper srv now' tape' ''POST'' True (Some reqCode)
                 = (Error 404 ''Invalid or expired code'', srv, tape')"
    if "Join (store srv) now' tape' (normalize_code upper reqCode) = Inl e"
    for upper srv now' tape' reqCode e
    using that by (rule handleJoin_Join_error)
  have statuses: "status (fst (handleJoin upper srv now' tape' m allowed body))
                    \<in> {200, 400, 404, 405, 429, 500}
                  \<and> status (fst (handleJoin upper srv now' tape' m allowed body)) \<noteq> 409"
    for upper srv now' tape' m allowed body
    using handleJoin_status [of upper srv now' tape' m allowed body] by auto
  show ?thesis
    using first tok' later http every statuses by blast
qed

theorem Join_once_then_conflict_as_404_witness:
  "Join example_store 2000 (replicate 32 (CHR ''b'')) ''MFQW-CYLB-MFQW'' = Inr (joined_session, joined_store, [])
   \<and> JoinToken joined_session \<noteq> []
   \<and> spared ''MFQW-CYLB-MFQW'' ''61616161616161616161616161616161'' store_history joined_store
   \<and> Join (store_run store_history joined_store) 3000 (replicate 32 (CHR ''c'')) ''MFQW-CYLB-MFQW''
       = Inl SessionAlreadyHasJoiner
   \<and> handleJoin example_upper
         \<lparr>store = store_run store_history joined_store, signer = NewSigner ''changeme-in-production'',
          tokenTTL = 900000000000\<rparr>
         3000 (replicate 32 (CHR ''c'')) ''POST'' True (Some ''mfqwcylbmfqw'')
       = (Error 404 ''Invalid or expired code'',
          \<lparr>store = store_run store_history joined_store, signer = NewSigner ''changeme-in-production'',
           tokenTTL = 900000000000\<rparr>,
          replicate 32 (CHR ''c''))"
proof -
  have a: "map_of (byCodes example_store) ''MFQW-CYLB-MFQW'' = Some ''61616161616161616161616161616161''"
    by (simp add: example_store_def)
  have b: "map_of (sessions example_store) ''61616161616161616161616161616161'' = Some example_session"
    by (simp add: example_store_def)
  have c: "\<not> After 2000 (ExpiresAt example_session)"
    by (simp add: After_def example_session_def)
  have d: "JoinToken example_session = []"
    by (simp add: example_session_def)
  have e: "32 \<le> length (replicate 32 (CHR ''b''))"
    by simp
  have f: "\<not> After 3000 (ExpiresAt example_session)"
    by (simp add: After_def example_session_def)
  have g: "normalize_code example_upper ''mfqwcylbmfqw'' = ''MFQW-CYLB-MFQW''"
    by code_simp
  from Join_once_then_conflict_as_404 [OF a b c d e] obtain session' s'
    where first: "Join example_store 2000 (replicate 32 (CHR ''b'')) ''MFQW-CYLB-MFQW''
                    = Inr (session', s', drop 32 (replicate 32 (CHR ''b'')))"
      and tok: "JoinToken session' \<noteq> []"
      and later: "\<forall>calls now' tape'.
                    spared ''MFQW-CYLB-MFQW'' ''61616161616161616161616161616161'' calls s'
                    \<and> \<not> After now' (ExpiresAt example_session) \<longrightarrow>
                    Join (store_run calls s') now' tape' ''MFQW-CYLB-MFQW'' = Inl SessionAlreadyHasJoiner"
      and http: "\<forall>calls now' tape' upper sg t reqCode.
                   spared ''MFQW-CYLB-MFQW'' ''61616161616161616161616161616161'' calls s'
                   \<and> \<not> After now' (ExpiresAt example_session)
                   \<and> normalize_code upper reqCode = ''MFQW-CYLB-MFQW'' \<longrightarrow>
                   handleJoin upper \<lparr>store = store_run calls s', signer = sg, tokenTTL = t\<rparr>
                       now' tape' ''POST'' True (Some reqCode)
                     = (Error 404 ''Invalid or expired code'',
                        \<lparr>store = store_run calls s', signer = sg, tokenTTL = t\<rparr>, tape')"
    by (elim exE conjE)
  have session': "session' = joined_session" and s': "s' = joined_store"
    using first joined_store_joined by simp_all
  have l: "Join (store_run store_history joined_store) 3000 (replicate 32 (CHR ''c'')) ''MFQW-CYLB-MFQW''
             = Inl SessionAlreadyHasJoiner"
    using later store_history_spares f unfolding s' by blast
  have h: "handleJoin example_upper
              \<lparr>store = store_run store_history joined_store, signer = NewSigner ''changeme-in-production'',
               tokenTTL = 900000000000\<rparr>
              3000 (replicate 32 (CHR ''c'')) ''POST'' True (Some ''mfqwcylbmfqw'')
            = (Error 404 ''Invalid or expired code'',
               \<lparr>store = store_run store_history joined_store, signer = NewSigner ''changeme-in-production'',
                tokenTTL = 900000000000\<rparr>,
               replicate 32 (CHR ''c''))"
    using http store_history_spares f g unfolding s' by blast
  show ?thesis
    using joined_store_joined tok store_history_spares l h
    unfolding session' by blast
qed

text \<open>
  C2 as stated fails at the endpoint: the second join on the code of the example
  session, which is live and has a joiner, fails in the store with the conflict error
  and is answered with status 404, not 409.
\<close>

theorem handleJoin_conflict_is_404_counterexample:
  "Join joined_store 3000 (replicate 32 (CHR ''c'')) ''MFQW-CYLB-MFQW'' = Inl SessionAlreadyHasJoiner
   \<and> status (fst (handleJoin example_upper example_server 3000 (replicate 32 (CHR ''c'')) ''POST'' True
                    (Some ''MFQW-CYLB-MFQW''))) = 404
   \<and> status (fst (handleJoin example_upper example_server 3000 (replicate 32 (CHR ''c'')) ''POST'' True
                    (Some ''MFQW-CYLB-MFQW''))) \<noteq> 409"
  by code_simp

section \<open>Properties of the relay\<close>

subsection \<open>A token that does not match the handshake (C5)\<close>

text \<open>
  C5. When the validator accepts the token and the session id or the role it returns
  differs from the one the handshake asserts, \<^term>\<open>HandleConnection\<close> writes the failure
  envelope "Token mismatch", returns (so the deferred close of the socket runs) and leaves
  the relay, with its pending table, as it was.
\<close>

theorem HandleConnection_token_mismatch:
  assumes "validate (authRelayToken m) = Some (sessionID, role)"
    and "sessionID \<noteq> authSessionID m \<or> role \<noteq> authRole m"
  shows "HandleConnection r validate now c (Some m) sendOk
           = (r, [SentAuthResponse c False ''Token mismatch'', Closed c], Returned)"
  using assms by (auto simp: HandleConnection_def)

theorem HandleConnection_token_mismatch_witness:
  "HandleConnection (NewRelay 30000000000 14400000000000) example_validator 5000 7
       (Some mismatched_handshake) True
     = (NewRelay 30000000000 14400000000000, [SentAuthResponse 7 False ''Token mismatch'', Closed 7], Returned)"
proof -
  have a: "example_validator (authRelayToken mismatched_handshake) = Some (''s1'', ''host'')"
    by (simp add: example_validator_def mismatched_handshake_def)
  have b: "''s1'' \<noteq> authSessionID mismatched_handshake \<or> ''host'' \<noteq> authRole mismatched_handshake"
    by (simp add: mismatched_handshake_def)
  show ?thesis
    using HandleConnection_token_mismatch [of example_validator mismatched_handshake "''s1''" "''host''", OF a b]
    by simp
qed

subsection \<open>Pairing (C1)\<close>

lemma pair_or_park_same_role:
  assumes "map_of (pending r) sid = Some p" and "pendingRole p = role"
  shows "pair_or_park r now c sid role =
           (r\<lparr>pending := AList.update sid
                 \<lparr>Conn = c, pendingRole = role, pendingSessionID = sid, pendingCreatedAt = now\<rparr> (pending r)\<rparr>,
            [Closed (Conn p)], Waiting c sid role)"
  using assms by (simp add: pair_or_park_def)

lemma pair_or_park_opposite_role:
  assumes "map_of (pending r) sid = Some p" and "pendingRole p \<noteq> role"
  shows "pair_or_park r now c sid role =
           (r\<lparr>pending := AList.delete sid (pending r)\<rparr>,
            [Paired sid (if role = ''host'' then c else Conn p) (if role = ''host'' then Conn p else c)],
            Splicing sid (if role = ''host'' then c else Conn p) (if role = ''host'' then Conn p else c))"
  using assms by (simp add: pair_or_park_def)

lemma pair_or_park_none:
  assumes "map_of (pending r) sid = None"
  shows "pair_or_park r now c sid role =
           (r\<lparr>pending := AList.update sid
                 \<lparr>Conn = c, pendingRole = role, pendingSessionID = sid, pendingCreatedAt = now\<rparr> (pending r)\<rparr>,
            [], Waiting c sid role)"
  using assms by (simp add: pair_or_park_def)

lemma pair_or_park_distinct:
  assumes "distinct (map fst (pending r))" and "pair_or_park r now c sid role = (r', evs, out)"
  shows "distinct (map fst (pending r'))"
  using assms
  by (auto simp: pair_or_park_def distinct_update distinct_delete split: option.splits if_splits)

lemma pair_or_park_count:
  assumes "pair_or_park r now c sid role = (r', evs, out)"
  shows "2 * pairs_spliced evs + pending_count r' sid \<le> 1 + pending_count r sid"
  using assms
  by (auto simp: pair_or_park_def pairs_spliced_def pending_count_def update_conv' delete_conv'
           split: option.splits if_splits)

lemma pairs_spliced_append: "pairs_spliced (xs @ ys) = pairs_spliced xs + pairs_spliced ys"
  by (simp add: pairs_spliced_def)

lemma arrivals_invariant:
  assumes "distinct (map fst (pending r))" and "arrivals r sid xs = (r', evs)"
  shows "distinct (map fst (pending r'))
         \<and> 2 * pairs_spliced evs + pending_count r' sid \<le> length xs + pending_count r sid"
  using assms
proof (induction xs arbitrary: r r' evs)
  case Nil
  then show ?case by (auto simp: pairs_spliced_def)
next
  case (Cons x xs)
  obtain c role now where x: "x = (c, role, now)" by (cases x)
  obtain r1 evs1 out where step: "pair_or_park r now c sid role = (r1, evs1, out)"
    by (cases "pair_or_park r now c sid role")
  obtain r2 evs2 where rest: "arrivals r1 sid xs = (r2, evs2)"
    by (cases "arrivals r1 sid xs")
  have res: "r' = r2" "evs = evs1 @ evs2"
    using Cons.prems(2) by (simp_all add: x step rest)
  have d1: "distinct (map fst (pending r1))"
    using pair_or_park_distinct [OF Cons.prems(1) step] .
  have ih: "distinct (map fst (pending r2))
            \<and> 2 * pairs_spliced evs2 + pending_count r2 sid \<le> length xs + pending_count r1 sid"
    using Cons.IH [OF d1 rest] .
  have c1: "2 * pairs_spliced evs1 + pending_count r1 sid \<le> 1 + pending_count r sid"
    using pair_or_park_count [OF step] .
  show ?case
    using ih c1 by (simp add: res pairs_spliced_append)
qed

text \<open>
  C1, as the code has it. The pending table has at most one entry per session id. For an
  authenticated connection of a session that has a pending entry: with the same role, the
  socket of the old entry is closed and the new connection takes the entry; with the other
  role, the entry is removed in the critical section and the two connections are handed to
  the splice, the host first. Over any sequence of authenticated connections for one
  session each splice uses up two of them: twice the number of spliced pairs, plus the
  entry left pending, is at most the number of connections plus the entry that was pending
  before. The relay keeps no record of the sessions it has paired, so this is the only
  bound on the pairs of a session.
\<close>

theorem relay_pairing_per_session:
  assumes "distinct (map fst (pending r))"
  shows "(\<forall>p now c role r1 evs1 out.
            map_of (pending r) sid = Some p \<and> pair_or_park r now c sid role = (r1, evs1, out) \<longrightarrow>
            (if pendingRole p = role
             then evs1 = [Closed (Conn p)]
                  \<and> map_of (pending r1) sid
                      = Some \<lparr>Conn = c, pendingRole = role, pendingSessionID = sid, pendingCreatedAt = now\<rparr>
                  \<and> out = Waiting c sid role
             else map_of (pending r1) sid = None
                  \<and> evs1 = [Paired sid (if role = ''host'' then c else Conn p) (if role = ''host'' then Conn p else c)]
                  \<and> out = Splicing sid (if role = ''host'' then c else Conn p) (if role = ''host'' then Conn p else c)))
         \<and> (\<forall>xs r' evs.
               arrivals r sid xs = (r', evs) \<longrightarrow>
               distinct (map fst (pending r'))
               \<and> 2 * pairs_spliced evs + pending_count r' sid \<le> length xs + pending_count r sid)"
proof (intro conjI allI impI)
  fix p now c role r1 evs1 out
  assume h: "map_of (pending r) sid = Some p \<and> pair_or_park r now c sid role = (r1, evs1, out)"
  show "if pendingRole p = role
        then evs1 = [Closed (Conn p)]
             \<and> map_of (pending r1) sid
                 = Some \<lparr>Conn = c, pendingRole = role, pendingSessionID = sid, pendingCreatedAt = now\<rparr>
             \<and> out = Waiting c sid role
        else map_of (pending r1) sid = None
             \<and> evs1 = [Paired sid (if role = ''host'' then c else Conn p) (if role = ''host'' then Conn p else c)]
             \<and> out = Splicing sid (if role = ''host'' then c else Conn p) (if role = ''host'' then Conn p else c)"
  proof (cases "pendingRole p = role")
    case True
    then show ?thesis
      using h pair_or_park_same_role [of r sid p role now c] by (auto simp: update_conv')
  next
    case False
    then show ?thesis
      using h pair_or_park_opposite_role [of r sid p role now c] by (auto simp: delete_conv')
  qed
next
  fix xs r' evs
  assume "arrivals r sid xs = (r', evs)"
  from arrivals_invariant [OF assms this]
  show "distinct (map fst (pending r'))"
    and "2 * pairs_spliced evs + pending_count r' sid \<le> length xs + pending_count r sid"
    by simp_all
qed

theorem relay_pairing_per_session_witness:
  "arrivals (NewRelay 30000000000 14400000000000) ''s1'' [(1, ''host'', 1000), (2, ''host'', 2000), (3, ''joiner'', 3000)]
     = (NewRelay 30000000000 14400000000000, [Closed 1, Paired ''s1'' 2 3])
   \<and> 2 * pairs_spliced [Closed 1, Paired ''s1'' 2 3] + pending_count (NewRelay 30000000000 14400000000000) ''s1''
       \<le> length [(1::nat, ''host'', 1000::int), (2, ''host'', 2000), (3, ''joiner'', 3000)]
         + pending_count (NewRelay 30000000000 14400000000000) ''s1''"
proof -
  have d: "distinct (map fst (pending (NewRelay 30000000000 14400000000000)))"
    by (simp add: NewRelay_def)
  have run: "arrivals (NewRelay 30000000000 14400000000000) ''s1''
               [(1, ''host'', 1000), (2, ''host'', 2000), (3, ''joiner'', 3000)]
             = (NewRelay 30000000000 14400000000000, [Closed 1, Paired ''s1'' 2 3])"
    by code_simp
  show ?thesis
    using relay_pairing_per_session [OF d, of "''s1''"] run by blast
qed

text \<open>
  C1 as stated fails: a host, a joiner, then again a host and a joiner of the same
  session (a capability token can be presented again until it expires) are spliced as two
  pairs.
\<close>

theorem relay_arrivals_counterexample:
  "arrivals (NewRelay 30000000000 14400000000000) ''s1''
       [(1, ''host'', 1000), (2, ''joiner'', 2000), (3, ''host'', 3000), (4, ''joiner'', 4000)]
     = (NewRelay 30000000000 14400000000000, [Paired ''s1'' 1 2, Paired ''s1'' 3 4])
   \<and> pairs_spliced [Paired ''s1'' 1 2, Paired ''s1'' 3 4] = 2"
  by code_simp

section \<open>Properties of the bridge (C8)\<close>











section \<open>Properties of the rate limiter (C9)\<close>

subsection \<open>The refill of a bucket\<close>

lemma seconds_add: "seconds (a + b) = seconds a + seconds b"
  by (simp add: seconds_def add_divide_distrib)

lemma seconds_nonneg: "0 \<le> d \<Longrightarrow> 0 \<le> seconds d"
  by (simp add: seconds_def)

lemma refill_le_burst: "refill r b bk t \<le> of_nat b"
  by (simp add: refill_def)

lemma refill_nonneg:
  assumes "0 \<le> r" and "0 \<le> tokens bk"
  shows "0 \<le> refill r b bk t"
proof -
  have "0 \<le> r * seconds (max 0 (t - lastUpdate bk))"
    using assms(1) by (intro mult_nonneg_nonneg seconds_nonneg) simp_all
  then show ?thesis
    using assms(2) by (simp add: refill_def)
qed

lemma refill_mono:
  assumes "0 \<le> r" and "lastUpdate bk \<le> t0" and "t0 \<le> t"
  shows "refill r b bk t \<le> refill r b bk t0 + r * seconds (t - t0)"
proof -
  have split: "seconds (max 0 (t - lastUpdate bk)) = seconds (max 0 (t0 - lastUpdate bk)) + seconds (t - t0)"
    using assms(2,3) by (simp add: seconds_add [symmetric] max_def)
  have nn: "0 \<le> r * seconds (t - t0)"
    using assms(1,3) by (intro mult_nonneg_nonneg seconds_nonneg) simp_all
  show ?thesis
    unfolding refill_def split using nn by (simp add: min_def distrib_left)
qed

lemma refill_now:
  assumes "tokens bk \<le> of_nat b" and "lastUpdate bk = t"
  shows "refill r b bk t = tokens bk"
  using assms by (simp add: refill_def seconds_def)


subsection \<open>One call, one pass of the janitor\<close>

lemma Allow_params [simp]:
  "rate (snd (Allow l t ip)) = rate l"
  "burst (snd (Allow l t ip)) = burst l"
  "cleanup (snd (Allow l t ip)) = cleanup l"
  by (simp_all add: Allow_def Let_def split: prod.splits)

lemma Allow_distinct:
  "distinct (map fst (limiters l)) \<Longrightarrow> distinct (map fst (limiters (snd (Allow l t ip))))"
  by (simp add: Allow_def Let_def distinct_update split: prod.splits)

lemma Allow_other:
  "ip' \<noteq> ip \<Longrightarrow> map_of (limiters (snd (Allow l t ip'))) ip = map_of (limiters l) ip"
  by (simp add: Allow_def Let_def update_conv' split: prod.splits)

text \<open>A call of the caller itself: it is allowed exactly when a token is available, and
  the bucket it leaves holds what was available, less the token it took.\<close>

lemma Allow_self:
  assumes "bucket_ok l t0 ip" and "t0 \<le> t"
  shows "fst (Allow l t ip) = (1 \<le> avail l t ip)"
    and "map_of (limiters (snd (Allow l t ip))) ip
           = Some \<lparr>limiter = \<lparr>tokens = (if 1 \<le> avail l t ip then avail l t ip - 1 else avail l t ip),
                                lastUpdate = t\<rparr>,
                    lastSeen = t\<rparr>"
proof -
  define client where "client = (case map_of (limiters l) ip of
                                   None \<Rightarrow> \<lparr>limiter = NewBucket (burst l) t, lastSeen = t\<rparr>
                                 | Some c \<Rightarrow> c)"
  have av: "refill (rate l) (burst l) (limiter client) t = avail l t ip"
  proof (cases "map_of (limiters l) ip")
    case None
    then show ?thesis
      by (simp add: client_def avail_def NewBucket_def refill_now)
  next
    case (Some c)
    then show ?thesis by (simp add: client_def avail_def)
  qed
  show "fst (Allow l t ip) = (1 \<le> avail l t ip)"
    unfolding Allow_def client_def [symmetric] Let_def bucket_Allow_def av by simp
  show "map_of (limiters (snd (Allow l t ip))) ip
           = Some \<lparr>limiter = \<lparr>tokens = (if 1 \<le> avail l t ip then avail l t ip - 1 else avail l t ip),
                                lastUpdate = t\<rparr>,
                    lastSeen = t\<rparr>"
    unfolding Allow_def client_def [symmetric] Let_def bucket_Allow_def av by (simp add: update_conv')
qed

lemma doCleanup_fold_params:
  "rate (fold (doCleanup_entry th) xs l) = rate l
   \<and> burst (fold (doCleanup_entry th) xs l) = burst l
   \<and> cleanup (fold (doCleanup_entry th) xs l) = cleanup l"
  by (induction xs arbitrary: l) (simp_all add: doCleanup_entry_def)

lemma doCleanup_fold_distinct:
  "distinct (map fst (limiters l)) \<Longrightarrow> distinct (map fst (limiters (fold (doCleanup_entry th) xs l)))"
  by (induction xs arbitrary: l) (simp_all add: doCleanup_entry_def distinct_delete)

lemma doCleanup_fold_lookup:
  "map_of (limiters (fold (doCleanup_entry th) xs l)) ip =
     (if \<exists>c. (ip, c) \<in> set xs \<and> lastSeen c < th then None else map_of (limiters l) ip)"
proof (induction xs arbitrary: l)
  case Nil
  then show ?case by simp
next
  case (Cons e xs)
  obtain k c where e: "e = (k, c)" by (cases e)
  show ?case
    unfolding fold_simps Cons.IH
    by (auto simp: e doCleanup_entry_def delete_conv')
qed

lemma doCleanup_params [simp]:
  "rate (doCleanup l t) = rate l"
  "burst (doCleanup l t) = burst l"
  "cleanup (doCleanup l t) = cleanup l"
  using doCleanup_fold_params [of "t - cleanup l" "limiters l" l] by (simp_all add: doCleanup_def)

lemma doCleanup_distinct:
  "distinct (map fst (limiters l)) \<Longrightarrow> distinct (map fst (limiters (doCleanup l t)))"
  by (simp add: doCleanup_def doCleanup_fold_distinct)

lemma doCleanup_lookup:
  assumes "distinct (map fst (limiters l))"
  shows "map_of (limiters (doCleanup l t)) ip =
           (case map_of (limiters l) ip of
              None \<Rightarrow> None
            | Some c \<Rightarrow> if lastSeen c < t - cleanup l then None else Some c)"
proof (cases "map_of (limiters l) ip")
  case None
  then show ?thesis
    using doCleanup_fold_lookup [of "t - cleanup l" "limiters l" l ip] by (simp add: doCleanup_def)
next
  case (Some c)
  have "(ip, c') \<in> set (limiters l) \<longleftrightarrow> c' = c" for c'
    using Some assms by (metis map_of_SomeD map_of_is_SomeI option.inject)
  then show ?thesis
    using Some doCleanup_fold_lookup [of "t - cleanup l" "limiters l" l ip] by (simp add: doCleanup_def)
qed


subsection \<open>The invariant of a window\<close>

lemma avail_nonneg:
  assumes "0 \<le> rate l" and "bucket_ok l t0 ip"
  shows "0 \<le> avail l t ip"
  using assms by (auto simp: avail_def bucket_ok_def refill_nonneg split: option.splits)

lemma avail_le_burst: "avail l t ip \<le> of_nat (burst l)"
  by (auto simp: avail_def refill_le_burst split: option.splits)

lemma avail_mono:
  assumes "0 \<le> rate l" and "bucket_ok l t0 ip" and "t0 \<le> t"
  shows "avail l t ip \<le> avail l t0 ip + rate l * seconds (t - t0)"
proof (cases "map_of (limiters l) ip")
  case None
  have "0 \<le> rate l * seconds (t - t0)"
    using assms(1,3) by (intro mult_nonneg_nonneg seconds_nonneg) simp_all
  then show ?thesis using None by (simp add: avail_def)
next
  case (Some c)
  then have "lastUpdate (limiter c) \<le> t0"
    using assms(2) by (simp add: bucket_ok_def)
  then show ?thesis
    using Some assms(1,3) by (simp add: avail_def refill_mono)
qed

lemma seconds_diff_split:
  "seconds (t - start) = seconds (t0 - start) + seconds (t - t0)"
  by (simp add: seconds_add [symmetric])

lemma window_inv_Allow:
  assumes inv: "window_inv l start t0 ip k"
    and rate: "0 \<le> rate l"
    and t: "t0 \<le> t"
  shows "window_inv (snd (Allow l t ip')) start t ip (k + (if fst (Allow l t ip') \<and> ip' = ip then 1 else 0))"
proof -
  have d: "distinct (map fst (limiters l))" and ok: "bucket_ok l t0 ip" and st: "start \<le> t0"
    and bound: "of_nat k + avail l t0 ip \<le> of_nat (burst l) + rate l * seconds (t0 - start)"
    and seen: "k = 0 \<or> (case map_of (limiters l) ip of None \<Rightarrow> False | Some c \<Rightarrow> start \<le> lastSeen c)"
    using inv by (simp_all add: window_inv_def)
  have mono: "avail l t ip \<le> avail l t0 ip + rate l * seconds (t - t0)"
    using avail_mono [OF rate ok t] .
  have bound_t: "of_nat k + avail l t ip \<le> of_nat (burst l) + rate l * seconds (t - start)"
    using bound mono by (simp add: seconds_diff_split [of t start t0] distrib_left)
  have d': "distinct (map fst (limiters (snd (Allow l t ip'))))"
    using d by (rule Allow_distinct)
  show ?thesis
  proof (cases "ip' = ip")
    case False
    have same: "map_of (limiters (snd (Allow l t ip'))) ip = map_of (limiters l) ip"
      using False by (rule Allow_other)
    have ok': "bucket_ok (snd (Allow l t ip')) t ip"
      using ok t by (auto simp: bucket_ok_def same split: option.splits)
    have av: "avail (snd (Allow l t ip')) t ip = avail l t ip"
      by (simp add: avail_def same split: option.splits)
    show ?thesis
      using False d' ok' st t bound_t seen by (simp add: window_inv_def av same)
  next
    case True
    let ?a = "avail l t ip"
    let ?l' = "snd (Allow l t ip)"
    have res: "fst (Allow l t ip) = (1 \<le> ?a)"
      and ent: "map_of (limiters ?l') ip
                  = Some \<lparr>limiter = \<lparr>tokens = (if 1 \<le> ?a then ?a - 1 else ?a), lastUpdate = t\<rparr>, lastSeen = t\<rparr>"
      using Allow_self [OF ok t] by simp_all
    have a0: "0 \<le> ?a" using avail_nonneg [OF rate ok] .
    have ab: "?a \<le> of_nat (burst l)" by (rule avail_le_burst)
    have ok': "bucket_ok ?l' t ip"
      using a0 ab by (simp add: bucket_ok_def ent)
    have av': "avail ?l' t ip = (if 1 \<le> ?a then ?a - 1 else ?a)"
      using ab by (simp add: avail_def ent refill_now)
    have "of_nat (k + (if 1 \<le> ?a then 1 else 0)) + avail ?l' t ip = of_nat k + ?a"
      by (simp add: av')
    then have b': "of_nat (k + (if 1 \<le> ?a then 1 else 0)) + avail ?l' t ip
                     \<le> of_nat (burst ?l') + rate ?l' * seconds (t - start)"
      using bound_t by simp
    have seen': "case map_of (limiters ?l') ip of None \<Rightarrow> False | Some c \<Rightarrow> start \<le> lastSeen c"
      using st t by (simp add: ent)
    show ?thesis
      unfolding True window_inv_def res
      using d' ok' st t b' seen' True by simp
  qed
qed

lemma window_inv_doCleanup:
  assumes inv: "window_inv l start t0 ip k"
    and rate: "0 \<le> rate l"
    and horizon: "60000000000 \<le> cleanup l"
    and t: "t0 \<le> t"
    and hi: "t \<le> start + 60000000000"
  shows "window_inv (doCleanup l t) start t ip k"
proof -
  have d: "distinct (map fst (limiters l))" and ok: "bucket_ok l t0 ip" and st: "start \<le> t0"
    and bound: "of_nat k + avail l t0 ip \<le> of_nat (burst l) + rate l * seconds (t0 - start)"
    and seen: "k = 0 \<or> (case map_of (limiters l) ip of None \<Rightarrow> False | Some c \<Rightarrow> start \<le> lastSeen c)"
    using inv by (simp_all add: window_inv_def)
  have mono: "avail l t ip \<le> avail l t0 ip + rate l * seconds (t - t0)"
    using avail_mono [OF rate ok t] .
  have bound_t: "of_nat k + avail l t ip \<le> of_nat (burst l) + rate l * seconds (t - start)"
    using bound mono by (simp add: seconds_diff_split [of t start t0] distrib_left)
  have d': "distinct (map fst (limiters (doCleanup l t)))"
    using d by (rule doCleanup_distinct)
  have look: "map_of (limiters (doCleanup l t)) ip =
                (case map_of (limiters l) ip of
                   None \<Rightarrow> None
                 | Some c \<Rightarrow> if lastSeen c < t - cleanup l then None else Some c)"
    using d by (rule doCleanup_lookup)
  show ?thesis
  proof (cases "map_of (limiters (doCleanup l t)) ip = map_of (limiters l) ip")
    case True
    have ok': "bucket_ok (doCleanup l t) t ip"
      using ok t by (auto simp: bucket_ok_def True split: option.splits)
    have av: "avail (doCleanup l t) t ip = avail l t ip"
      by (simp add: avail_def True split: option.splits)
    show ?thesis
      using d' ok' st t bound_t seen by (simp add: window_inv_def av True)
  next
    case False
    then obtain c where c: "map_of (limiters l) ip = Some c" and stale: "lastSeen c < t - cleanup l"
      and gone: "map_of (limiters (doCleanup l t)) ip = None"
      unfolding look by (auto split: option.splits if_splits)
    have "lastSeen c < start"
      using stale horizon hi by simp
    then have k0: "k = 0"
      using seen c by auto
    have "0 \<le> rate l * seconds (t - start)"
      using rate st t by (intro mult_nonneg_nonneg seconds_nonneg) simp_all
    then show ?thesis
      using d' st t k0 by (simp add: window_inv_def bucket_ok_def avail_def gone)
  qed
qed

lemma ordered_until_le: "ordered_until t hi evs \<Longrightarrow> t \<le> hi"
proof (induction evs arbitrary: t)
  case Nil
  then show ?case by simp
next
  case (Cons e evs)
  then have "t \<le> event_time e" and "event_time e \<le> hi" by simp_all
  then show ?case by simp
qed

lemma window_bound:
  assumes "window_inv l start t0 ip k"
    and "0 \<le> rate l"
    and "60000000000 \<le> cleanup l"
    and "ordered_until t0 (start + 60000000000) evs"
  shows "of_nat (k + allowed_count ip l evs) \<le> rate l * 60 + of_nat (burst l)"
  using assms
proof (induction evs arbitrary: l t0 k)
  case Nil
  have ok: "bucket_ok l t0 ip" and st: "start \<le> t0"
    and bound: "of_nat k + avail l t0 ip \<le> of_nat (burst l) + rate l * seconds (t0 - start)"
    using Nil.prems(1) by (simp_all add: window_inv_def)
  have hi: "t0 \<le> start + 60000000000" using Nil.prems(4) by simp
  have "seconds (t0 - start) \<le> 60"
    using hi by (simp add: seconds_def)
  then have "rate l * seconds (t0 - start) \<le> rate l * 60"
    using Nil.prems(2) by (rule mult_left_mono)
  moreover have "0 \<le> avail l t0 ip"
    using avail_nonneg [OF Nil.prems(2) ok] .
  ultimately show ?case using bound by simp
next
  case (Cons e evs)
  show ?case
  proof (cases e)
    case (AllowAt t ip')
    have t: "t0 \<le> t" and rest: "ordered_until t (start + 60000000000) evs"
      using Cons.prems(4) AllowAt by simp_all
    let ?k' = "k + (if fst (Allow l t ip') \<and> ip' = ip then 1 else 0)"
    have inv': "window_inv (snd (Allow l t ip')) start t ip ?k'"
      using window_inv_Allow [OF Cons.prems(1,2) t] .
    have "of_nat (?k' + allowed_count ip (snd (Allow l t ip')) evs)
            \<le> rate (snd (Allow l t ip')) * 60 + of_nat (burst (snd (Allow l t ip')))"
      using Cons.prems(2,3) by (intro Cons.IH [OF inv' _ _ rest]) simp_all
    then show ?thesis
      using AllowAt by (simp add: add.assoc)
  next
    case (CleanupAt t)
    have t: "t0 \<le> t" and rest: "ordered_until t (start + 60000000000) evs"
      using Cons.prems(4) CleanupAt by simp_all
    have hi: "t \<le> start + 60000000000"
      using rest by (rule ordered_until_le)
    have inv': "window_inv (doCleanup l t) start t ip k"
      using window_inv_doCleanup [OF Cons.prems(1,2,3) t hi] .
    have "of_nat (k + allowed_count ip (doCleanup l t) evs)
            \<le> rate (doCleanup l t) * 60 + of_nat (burst (doCleanup l t))"
      using Cons.prems(2,3) by (intro Cons.IH [OF inv' _ _ rest]) simp_all
    then show ?thesis
      using CleanupAt by simp
  qed
qed


subsection \<open>Every limiter that the events leave is well formed\<close>

lemma bucket_ok_later: "bucket_ok l t ip \<Longrightarrow> t \<le> t' \<Longrightarrow> bucket_ok l t' ip"
  by (auto simp: bucket_ok_def split: option.splits)

lemma limiter_ok_NewLimiter: "0 \<le> r \<Longrightarrow> limiter_ok (NewLimiter r b) t ip"
  by (simp add: limiter_ok_def NewLimiter_def bucket_ok_def)

lemma limiter_ok_window_inv:
  assumes "limiter_ok l t ip"
  shows "window_inv l t t ip 0"
  using assms avail_le_burst [of l t ip] by (simp add: limiter_ok_def window_inv_def seconds_def)

lemma limiter_ok_step:
  assumes "limiter_ok l t0 ip" and "t0 \<le> event_time e"
  shows "limiter_ok (limiter_step l e) (event_time e) ip"
proof (cases e)
  case (AllowAt t ip')
  have wi: "window_inv l t0 t0 ip 0"
    using assms(1) by (rule limiter_ok_window_inv)
  have r: "0 \<le> rate l" using assms(1) by (simp add: limiter_ok_def)
  have t: "t0 \<le> t" using assms(2) AllowAt by simp
  have "window_inv (snd (Allow l t ip')) t0 t ip (0 + (if fst (Allow l t ip') \<and> ip' = ip then 1 else 0))"
    using wi r t by (rule window_inv_Allow)
  then show ?thesis
    using assms(1) AllowAt by (simp add: limiter_ok_def window_inv_def)
next
  case (CleanupAt t)
  have d: "distinct (map fst (limiters l))" and ok: "bucket_ok l t0 ip" and t: "t0 \<le> t"
    using assms CleanupAt by (simp_all add: limiter_ok_def)
  have "bucket_ok (doCleanup l t) t ip"
    using bucket_ok_later [OF ok t]
    by (auto simp: bucket_ok_def doCleanup_lookup [OF d] split: option.splits)
  then show ?thesis
    using assms(1) CleanupAt d by (simp add: limiter_ok_def doCleanup_distinct)
qed

lemma limiter_ok_run:
  assumes "limiter_ok l t0 ip" and "ordered_until t0 hi history"
  shows "limiter_ok (limiter_run l history) hi ip"
  using assms
proof (induction history arbitrary: l t0)
  case Nil
  then show ?case
    by (auto simp: limiter_run_def limiter_ok_def intro: bucket_ok_later)
next
  case (Cons e history)
  have t: "t0 \<le> event_time e" and rest: "ordered_until (event_time e) hi history"
    using Cons.prems(2) by simp_all
  have "limiter_ok (limiter_step l e) (event_time e) ip"
    using Cons.prems(1) t by (rule limiter_ok_step)
  then have "limiter_ok (limiter_run (limiter_step l e) history) hi ip"
    using rest by (rule Cons.IH)
  then show ?case by (simp add: limiter_run_def)
qed

lemma limiter_run_params [simp]:
  "rate (limiter_run l history) = rate l" "burst (limiter_run l history) = burst l"
proof -
  have "rate (limiter_step l e) = rate l \<and> burst (limiter_step l e) = burst l" for l e
    by (cases e) simp_all
  then have "rate (limiter_run l history) = rate l \<and> burst (limiter_run l history) = burst l"
    unfolding limiter_run_def by (induction history arbitrary: l) simp_all
  then show "rate (limiter_run l history) = rate l" "burst (limiter_run l history) = burst l"
    by simp_all
qed

lemma limiter_ok_bound:
  assumes "limiter_ok l start ip" and "in_window start evs"
  shows "of_nat (allowed_count ip l evs) \<le> rate l * 60 + of_nat (burst l)"
  using window_bound [OF limiter_ok_window_inv [OF assms(1)], of evs] assms
  by (simp add: limiter_ok_def in_window_def)

text \<open>
  C9. Take a limiter made by \<^term>\<open>NewLimiter\<close> with a rate that is not negative, any
  history of calls and janitor passes in the order of the clock, and then the events of any
  window of 60 seconds. The calls of one caller that are allowed in the window are at most
  the rate times 60 plus the burst: at most 13 for the limiter of session creation (10 per
  minute, burst 3) and at most 40 for the limiter of joins (30 per minute, burst 10). A
  bucket that the janitor has dropped comes back full, and this cannot add to a window,
  because the janitor only drops a caller it has not seen for three minutes.
\<close>

theorem rate_limit_window:
  assumes "0 \<le> r"
    and "ordered_until t0 start history"
    and "in_window start evs"
  shows "of_nat (allowed_count ip (limiter_run (NewLimiter r b) history) evs) \<le> r * 60 + of_nat b
         \<and> allowed_count ip (limiter_run (createLimiter NewMultiLimiter) history) evs \<le> 13
         \<and> allowed_count ip (limiter_run (joinLimiter NewMultiLimiter) history) evs \<le> 40"
proof -
  have gen: "of_nat (allowed_count ip (limiter_run (NewLimiter r' b') history) evs) \<le> r' * 60 + of_nat b'"
    if "0 \<le> r'" for r' :: rat and b'
  proof -
    have "limiter_ok (limiter_run (NewLimiter r' b') history) start ip"
      using limiter_ok_NewLimiter [OF that] assms(2) by (rule limiter_ok_run)
    from limiter_ok_bound [OF this assms(3)] show ?thesis
      by (simp add: NewLimiter_def)
  qed
  have "(of_nat (allowed_count ip (limiter_run (NewLimiter (10 / 60) 3) history) evs) :: rat) \<le> 13"
    using gen [of "10 / 60" 3] by simp
  then have c: "allowed_count ip (limiter_run (NewLimiter (10 / 60) 3) history) evs \<le> 13"
    by (metis of_nat_le_iff of_nat_numeral)
  have "(of_nat (allowed_count ip (limiter_run (NewLimiter (30 / 60) 10) history) evs) :: rat) \<le> 40"
    using gen [of "30 / 60" 10] by simp
  then have j: "allowed_count ip (limiter_run (NewLimiter (30 / 60) 10) history) evs \<le> 40"
    by (metis of_nat_le_iff of_nat_numeral)
  show ?thesis
    using gen [OF assms(1)] c j by (simp add: NewMultiLimiter_def)
qed

theorem rate_limit_window_witness:
  "ordered_until 0 10000000000 example_history
   \<and> in_window 10000000000 example_calls
   \<and> allowed_count ''203.0.113.7'' (limiter_run (createLimiter NewMultiLimiter) example_history) example_calls \<le> 13
   \<and> allowed_count ''203.0.113.7'' (limiter_run (joinLimiter NewMultiLimiter) example_history) example_calls \<le> 40"
proof -
  have a: "(0::rat) \<le> 1" by simp
  have b: "ordered_until 0 10000000000 example_history"
    by (simp add: example_history_def)
  have c: "in_window 10000000000 example_calls"
    by (simp add: in_window_def example_calls_def)
  show ?thesis
    using rate_limit_window [OF a b c, of "''203.0.113.7''" 1] b c by simp
qed

text \<open>In the example two of the five calls of the window are allowed.\<close>

lemma example_calls_allowed:
  "allowed_count ''203.0.113.7'' (limiter_run (createLimiter NewMultiLimiter) example_history) example_calls = 2"
  by code_simp

section \<open>Properties of the token signer\<close>

subsection \<open>Base64: decoding what was encoded\<close>
















subsection \<open>The two halves of a token\<close>






subsection \<open>UTF-8: encoding what was decoded\<close>


















subsection \<open>JSON strings: unquoting what was quoted\<close>





lemma prepend_Some [simp]: "prepend x (Some (s, rest)) = Some (x @ s, rest)"
  by (simp add: prepend_def)







subsection \<open>JSON integers: parsing what was formatted\<close>




declare digits10.simps [simp del]




subsection \<open>The claims: unmarshalling what was marshalled\<close>








subsection \<open>Signing and verifying (C3)\<close>







subsection \<open>A token with one bit flipped (C4)\<close>








subsection \<open>A flipped bit that the decoder does not read\<close>










end
